theory Spec2Isabelle
  imports Complex_Main
begin

section \<open>Data model of \<^verbatim>\<open>sudoku.tsx\<close>\<close>

text \<open>
  \<^verbatim>\<open>type Cell = number | Set<number> | null\<close>: a cell is empty (\<^verbatim>\<open>null\<close>), holds a placed
  number, or holds a set of pencil marks.  \<^verbatim>\<open>type Board = Cell[][]\<close> is a list of rows.
  Coordinates are array indices, hence natural numbers.
\<close>

datatype cell = Empty | Digit int | Candidates "int set"

type_synonym board = "cell list list"

type_synonym coords = "nat \<times> nat"

text \<open>A well-formed board has nine rows of nine cells.\<close>

definition wf_board :: "board \<Rightarrow> bool" where
  "wf_board b = (length b = 9 \<and> list_all (\<lambda>row. length row = 9) b)"

text \<open>
  The read \<^verbatim>\<open>b[r][c]\<close>.  A read past the end of a row yields \<^verbatim>\<open>undefined\<close>, which is
  neither \<^verbatim>\<open>null\<close> nor a number nor a \<^verbatim>\<open>Set\<close>; it is \<open>None\<close> here.  A read in a row that
  does not exist throws in the source; it is \<open>None\<close> here as well, and the theorems
  below that depend on it assume a well-formed board, where no such read occurs.
\<close>

definition cell_at :: "board \<Rightarrow> nat \<Rightarrow> nat \<Rightarrow> cell option" where
  "cell_at b r c = (if r < length b \<and> c < length (b ! r) then Some (b ! r ! c) else None)"

text \<open>The assignment \<^verbatim>\<open>b[r][c] = v\<close> to an existing cell.\<close>

definition set_cell :: "board \<Rightarrow> nat \<Rightarrow> nat \<Rightarrow> cell \<Rightarrow> board" where
  "set_cell b r c v = b[r := (b ! r)[c := v]]"

text \<open>All 81 coordinates in the order of the nested \<^verbatim>\<open>for\<close> loops (row by row).\<close>

definition all_coords :: "coords list" where
  "all_coords = List.product [0..<9] [0..<9]"

text \<open>\<^verbatim>\<open>Array.from({ length: 9 }, () => Array(9).fill(null))\<close>.\<close>

definition emptyBoard :: board where
  "emptyBoard = replicate 9 (replicate 9 Empty)"

text \<open>
  \<^verbatim>\<open>cloneBoard\<close> copies every row and every pencil-mark set.  In the value model a copy
  is equal to its original; what the copy buys the source is that later in-place
  updates of the clone do not reach the original, which the model has by construction.
\<close>

definition cloneBoard :: "board \<Rightarrow> board" where
  "cloneBoard b =
     map (\<lambda>row. map (\<lambda>cell. case cell of Candidates s \<Rightarrow> Candidates s | _ \<Rightarrow> cell) row) b"

section \<open>Constraint checks\<close>

text \<open>\<^verbatim>\<open>findEmpty\<close> (the same code in \<^verbatim>\<open>solve\<close> and in \<^verbatim>\<open>countSolutions\<close>): the first
  \<^verbatim>\<open>null\<close> cell in row-major order.\<close>

definition findEmpty :: "board \<Rightarrow> coords option" where
  "findEmpty b = List.find (\<lambda>(r, c). cell_at b r c = Some Empty) all_coords"

text \<open>\<^verbatim>\<open>isValid\<close> inside \<^verbatim>\<open>solve\<close>: the cell under test is skipped in all three scans.\<close>

definition solve_isValid :: "board \<Rightarrow> int \<Rightarrow> nat \<Rightarrow> nat \<Rightarrow> bool" where
  "solve_isValid b num r c =
     (\<not> list_ex (\<lambda>i. (cell_at b r i = Some (Digit num) \<and> i \<noteq> c)
                    \<or> (cell_at b i c = Some (Digit num) \<and> i \<noteq> r)) [0..<9]
      \<and> (let boxRow = (r div 3) * 3; boxCol = (c div 3) * 3
         in \<not> list_ex (\<lambda>i. list_ex (\<lambda>j. cell_at b i j = Some (Digit num) \<and> (i \<noteq> r \<or> j \<noteq> c))
                  [boxCol..<boxCol + 3]) [boxRow..<boxRow + 3]))"

text \<open>\<^verbatim>\<open>isValid\<close> inside \<^verbatim>\<open>countSolutions\<close>: every cell of the three scans is compared.\<close>

definition count_isValid :: "board \<Rightarrow> int \<Rightarrow> nat \<Rightarrow> nat \<Rightarrow> bool" where
  "count_isValid b num r c =
     (\<not> list_ex (\<lambda>i. cell_at b r i = Some (Digit num) \<or> cell_at b i c = Some (Digit num)) [0..<9]
      \<and> (let boxRow = (r div 3) * 3; boxCol = (c div 3) * 3
         in \<not> list_ex (\<lambda>i. list_ex (\<lambda>j. cell_at b i j = Some (Digit num))
                  [boxCol..<boxCol + 3]) [boxRow..<boxRow + 3]))"

text \<open>\<^verbatim>\<open>pencilConflict\<close>: the same three scans, answering \<^verbatim>\<open>true\<close> at the first hit.\<close>

definition pencilConflict :: "board \<Rightarrow> nat \<Rightarrow> nat \<Rightarrow> int \<Rightarrow> bool" where
  "pencilConflict b row col num =
     (list_ex (\<lambda>i. cell_at b row i = Some (Digit num) \<or> cell_at b i col = Some (Digit num)) [0..<9]
      \<or> (let boxRow = (row div 3) * 3; boxCol = (col div 3) * 3
         in list_ex (\<lambda>r. list_ex (\<lambda>c. cell_at b r c = Some (Digit num))
                [boxCol..<boxCol + 3]) [boxRow..<boxRow + 3]))"

text \<open>
  Two coordinates share a unit when they lie in the same row, the same column or the
  same 3x3 box; a peer of a cell is another cell sharing a unit with it.
\<close>

definition same_unit :: "nat \<Rightarrow> nat \<Rightarrow> nat \<Rightarrow> nat \<Rightarrow> bool" where
  "same_unit r c r' c' = (r' = r \<or> c' = c \<or> (r' div 3 = r div 3 \<and> c' div 3 = c div 3))"

definition peer :: "nat \<Rightarrow> nat \<Rightarrow> nat \<Rightarrow> nat \<Rightarrow> bool" where
  "peer r c r' c' = (same_unit r c r' c' \<and> (r', c') \<noteq> (r, c))"

section \<open>Backtracking solver\<close>

text \<open>The number of \<^verbatim>\<open>null\<close> cells of the 9x9 grid.\<close>

definition count_empty :: "board \<Rightarrow> nat" where
  "count_empty b = length (filter (\<lambda>(r, c). cell_at b r c = Some Empty) all_coords)"

text \<open>
  \<^verbatim>\<open>solve\<close>.  The array \<^verbatim>\<open>numbers\<close> is \<^verbatim>\<open>[1..9]\<close> sorted with a random comparator; the
  outcome of the \<open>k\<close>-th such shuffle is \<open>shuf k\<close>, and the counter of shuffles drawn so
  far is threaded through the recursion.  \<open>solve_loop\<close> is the \<^verbatim>\<open>for (const num of numbers)\<close>
  loop over the numbers not yet tried.
\<close>

function solve :: "(nat \<Rightarrow> int list) \<Rightarrow> board \<Rightarrow> nat \<Rightarrow> board option \<times> nat"
  and solve_loop :: "(nat \<Rightarrow> int list) \<Rightarrow> board \<Rightarrow> nat \<Rightarrow> nat \<Rightarrow> int list \<Rightarrow> nat \<Rightarrow> board option \<times> nat"
  where
  "solve shuf b k =
     (let board = cloneBoard b
      in case findEmpty board of
           None \<Rightarrow> (Some board, k)
         | Some (r, c) \<Rightarrow> solve_loop shuf board r c (shuf k) (Suc k))"
| "solve_loop shuf board r c [] k = (None, k)"
| "solve_loop shuf board r c (num # numbers) k =
     (let board1 = set_cell board r c (Digit num)
      in if solve_isValid board1 num r c
         then (case solve shuf board1 k of
                 (Some solved, k') \<Rightarrow> (Some solved, k')
               | (None, k') \<Rightarrow> solve_loop shuf (set_cell board1 r c Empty) r c numbers k')
         else solve_loop shuf (set_cell board1 r c Empty) r c numbers k)"
  by pat_completeness auto

text \<open>
  \<^verbatim>\<open>solve\<close> with a bound on the nesting of its recursive calls: \<open>solve_bounded d\<close> may nest
  recursive calls \<open>d\<close> deep below the call itself, and answers \<open>None\<close> where \<^verbatim>\<open>solve\<close> would
  nest deeper.  Otherwise it is \<^verbatim>\<open>solve\<close>, line by line.
\<close>

fun solve_bounded :: "nat \<Rightarrow> (nat \<Rightarrow> int list) \<Rightarrow> board \<Rightarrow> nat \<Rightarrow> (board option \<times> nat) option"
  and solve_loop_bounded ::
    "nat \<Rightarrow> (nat \<Rightarrow> int list) \<Rightarrow> board \<Rightarrow> nat \<Rightarrow> nat \<Rightarrow> int list \<Rightarrow> nat \<Rightarrow> (board option \<times> nat) option"
  where
  "solve_bounded d shuf b k =
     (let board = cloneBoard b
      in case findEmpty board of
           None \<Rightarrow> Some (Some board, k)
         | Some (r, c) \<Rightarrow> solve_loop_bounded d shuf board r c (shuf k) (Suc k))"
| "solve_loop_bounded d shuf board r c [] k = Some (None, k)"
| "solve_loop_bounded d shuf board r c (num # numbers) k =
     (let board1 = set_cell board r c (Digit num)
      in if solve_isValid board1 num r c
         then (case d of
                 0 \<Rightarrow> None
               | Suc d' \<Rightarrow>
                   (case solve_bounded d' shuf board1 k of
                      None \<Rightarrow> None
                    | Some (Some solved, k') \<Rightarrow> Some (Some solved, k')
                    | Some (None, k') \<Rightarrow>
                        solve_loop_bounded d shuf (set_cell board1 r c Empty) r c numbers k'))
         else solve_loop_bounded d shuf (set_cell board1 r c Empty) r c numbers k)"

section \<open>Solution counter\<close>

text \<open>
  \<^verbatim>\<open>backtrack\<close> inside \<^verbatim>\<open>countSolutions\<close>.  It updates the caller's grid in place and the
  counter \<^verbatim>\<open>solutions\<close> of the enclosing call; both are passed in and returned.
  \<open>backtrack_loop\<close> is the loop \<^verbatim>\<open>for (let num = 1; num <= 9; num++)\<close> from \<open>num\<close> on.
\<close>

function backtrack :: "board \<Rightarrow> int \<Rightarrow> board \<times> int"
  and backtrack_loop :: "board \<Rightarrow> nat \<Rightarrow> nat \<Rightarrow> int \<Rightarrow> int \<Rightarrow> board \<times> int"
  where
  "backtrack b solutions =
     (case findEmpty b of
        None \<Rightarrow> (b, solutions + 1)
      | Some (r, c) \<Rightarrow> backtrack_loop b r c 1 solutions)"
| "backtrack_loop b r c num solutions =
     (if num \<le> 9
      then (if count_isValid b num r c
            then (case backtrack (set_cell b r c (Digit num)) solutions of
                    (b1, solutions1) \<Rightarrow>
                      if solutions1 > 1 then (b1, solutions1)
                      else backtrack_loop (set_cell b1 r c Empty) r c (num + 1) solutions1)
            else backtrack_loop b r c (num + 1) solutions)
      else (b, solutions))"
  by pat_completeness auto

text \<open>
  \<^verbatim>\<open>countSolutions\<close>: runs \<^verbatim>\<open>backtrack\<close> on the caller's grid with the counter at 0.  The
  result is the grid as the call leaves it, and the returned count.
\<close>

definition countSolutions :: "board \<Rightarrow> board \<times> int" where
  "countSolutions b = backtrack b 0"

section \<open>Puzzle generator\<close>

text \<open>The error thrown when \<^verbatim>\<open>solve\<close> returns \<^verbatim>\<open>null\<close>.\<close>

datatype error = GenerationFailed

text \<open>The assignment \<^verbatim>\<open>puzzle[r][c] = backup\<close> of a value read from the same cell before.\<close>

definition put_back :: "board \<Rightarrow> nat \<Rightarrow> nat \<Rightarrow> cell option \<Rightarrow> board" where
  "put_back b r c backup = (case backup of Some v \<Rightarrow> set_cell b r c v | None \<Rightarrow> b)"

text \<open>
  The \<^verbatim>\<open>while (cellsToRemove > 0)\<close> loop of \<^verbatim>\<open>generateNewPuzzle\<close>.  The \<open>i\<close>-th value that
  \<^verbatim>\<open>Math.random()\<close> returns inside \<^verbatim>\<open>generateNewPuzzle\<close> is \<open>rnd i\<close>; the loop draws two values
  in each round.  The loop has no bound on its rounds: it need not return, and then the
  result is \<open>None\<close>.
\<close>

partial_function (option) carve :: "(nat \<Rightarrow> real) \<Rightarrow> nat \<Rightarrow> board \<Rightarrow> int \<Rightarrow> board option" where
  "carve rnd i puzzle cellsToRemove =
     (if cellsToRemove > 0
      then (let r = nat \<lfloor>rnd i * 9\<rfloor>;
                c = nat \<lfloor>rnd (i + 1) * 9\<rfloor>
            in if cell_at puzzle r c \<noteq> Some Empty
               then (let backup = cell_at puzzle r c;
                         puzzle1 = set_cell puzzle r c Empty
                     in if snd (countSolutions (cloneBoard puzzle1)) = 1
                        then carve rnd (i + 2) puzzle1 (cellsToRemove - 1)
                        else carve rnd (i + 2) (put_back puzzle1 r c backup) cellsToRemove)
               else carve rnd (i + 2) puzzle cellsToRemove)
      else Some puzzle)"

text \<open>
  \<^verbatim>\<open>generateNewPuzzle\<close>: \<open>shuf\<close> are the shuffles of \<^verbatim>\<open>solve\<close>, \<open>rnd\<close> the values of
  \<^verbatim>\<open>Math.random()\<close> drawn by the function itself.  The result is \<open>None\<close> when the loop does
  not return, the error when \<^verbatim>\<open>solve\<close> fails, and the pair \<^verbatim>\<open>{ puzzle, solution }\<close> otherwise.
\<close>

definition generateNewPuzzle ::
  "(nat \<Rightarrow> int list) \<Rightarrow> (nat \<Rightarrow> real) \<Rightarrow> (error + board \<times> board) option" where
  "generateNewPuzzle shuf rnd =
     (case fst (solve shuf (cloneBoard emptyBoard) 0) of
        None \<Rightarrow> Some (Inl GenerationFailed)
      | Some solution \<Rightarrow>
          (let puzzle = cloneBoard solution;
               cellsToRemove = \<lfloor>rnd 0 * (50 - 40 + 1)\<rfloor> + 46
           in map_option (\<lambda>p. Inr (p, solution)) (carve rnd 1 puzzle cellsToRemove)))"

section \<open>Board state manager\<close>

text \<open>\<^verbatim>\<open>isGiven\<close>: the cell is not \<^verbatim>\<open>null\<close> in the puzzle as dealt.\<close>

definition isGiven :: "board \<Rightarrow> nat \<Rightarrow> nat \<Rightarrow> bool" where
  "isGiven puz r c = (cell_at puz r c \<noteq> Some Empty)"

text \<open>\<^verbatim>\<open>Set.prototype.delete\<close> on a cell that is a \<^verbatim>\<open>Set\<close>; other cells are left alone.\<close>

fun pruned :: "int \<Rightarrow> cell \<Rightarrow> cell" where
  "pruned v (Candidates s) = Candidates (s - {v})"
| "pruned v x = x"

text \<open>One statement \<^verbatim>\<open>if (b[r][c] instanceof Set) (b[r][c] as Set<number>).delete(value)\<close>.
  Every cell of the board being edited owns its set (the board is a fresh clone), so the
  in-place deletion changes this cell only.\<close>

definition prune_cell :: "board \<Rightarrow> nat \<Rightarrow> nat \<Rightarrow> int \<Rightarrow> board" where
  "prune_cell b r c v =
     (case cell_at b r c of
        Some (Candidates s) \<Rightarrow> set_cell b r c (pruned v (Candidates s))
      | _ \<Rightarrow> b)"

text \<open>\<^verbatim>\<open>removeCandidates\<close>: the row and column loop, then the box loops.\<close>

definition removeCandidates :: "board \<Rightarrow> nat \<Rightarrow> nat \<Rightarrow> int \<Rightarrow> board" where
  "removeCandidates b row col v =
     (let b1 = fold (\<lambda>i nb. prune_cell (prune_cell nb row i v) i col v) [0..<9] b;
          boxRow = (row div 3) * 3; boxCol = (col div 3) * 3
      in fold (\<lambda>r nb. fold (\<lambda>c nb1. prune_cell nb1 r c v) [boxCol..<boxCol + 3] nb)
           [boxRow..<boxRow + 3] b1)"

text \<open>The \<^verbatim>\<open>Backspace\<close>/\<^verbatim>\<open>Delete\<close> branch of \<^verbatim>\<open>onBoardKeyDown\<close>.\<close>

definition clearCells :: "board \<Rightarrow> board \<Rightarrow> coords list \<Rightarrow> board" where
  "clearCells puz b sel =
     fold (\<lambda>(r, c) nb. if \<not> isGiven puz r c then set_cell nb r c Empty else nb) sel b"

text \<open>The pencil branch of \<^verbatim>\<open>onBoardKeyDown\<close>.\<close>

definition pencilMarkExistsInAll :: "board \<Rightarrow> coords list \<Rightarrow> int \<Rightarrow> bool" where
  "pencilMarkExistsInAll b sel digit =
     list_all (\<lambda>(r, c). case cell_at b r c of Some (Candidates s) \<Rightarrow> digit \<in> s | _ \<Rightarrow> False) sel"

definition toggleCandidate :: "board \<Rightarrow> board \<Rightarrow> coords list \<Rightarrow> int \<Rightarrow> board" where
  "toggleCandidate puz b sel digit =
     (let allHave = pencilMarkExistsInAll b sel digit
      in fold (\<lambda>(r, c) nb.
           if isGiven puz r c then nb
           else (let candidates = (case cell_at nb r c of Some (Candidates s) \<Rightarrow> s | _ \<Rightarrow> {});
                     candidates1 = (if allHave then candidates - {digit}
                                    else insert digit candidates)
                 in set_cell nb r c (if candidates1 \<noteq> {} then Candidates candidates1 else Empty)))
         sel b)"

text \<open>The digit branch of \<^verbatim>\<open>onBoardKeyDown\<close>.\<close>

definition numberExistsInAll :: "board \<Rightarrow> coords list \<Rightarrow> int \<Rightarrow> bool" where
  "numberExistsInAll b sel digit = list_all (\<lambda>(r, c). cell_at b r c = Some (Digit digit)) sel"

definition placeDigit :: "board \<Rightarrow> board \<Rightarrow> coords list \<Rightarrow> int \<Rightarrow> board" where
  "placeDigit puz b sel digit =
     (let allHold = numberExistsInAll b sel digit
      in fold (\<lambda>(r, c) nb.
           if isGiven puz r c then nb
           else if allHold then set_cell nb r c Empty
           else removeCandidates (set_cell nb r c (Digit digit)) r c digit)
         sel b)"

text \<open>
  The strict comparison \<^verbatim>\<open>b[r][c] !== solution[r][c]\<close> of cells of two different boards:
  numbers compare by value, \<^verbatim>\<open>null\<close> equals \<^verbatim>\<open>null\<close>, \<^verbatim>\<open>undefined\<close> equals \<^verbatim>\<open>undefined\<close>,
  and a \<^verbatim>\<open>Set\<close> object of one board is never identical to anything in the other.
\<close>

fun strict_eq :: "cell option \<Rightarrow> cell option \<Rightarrow> bool" where
  "strict_eq None None = True"
| "strict_eq (Some Empty) (Some Empty) = True"
| "strict_eq (Some (Digit x)) (Some (Digit y)) = (x = y)"
| "strict_eq _ _ = False"

definition isPuzzleCompleted :: "board \<Rightarrow> board \<Rightarrow> bool" where
  "isPuzzleCompleted sol b = list_all (\<lambda>(r, c). strict_eq (cell_at b r c) (cell_at sol r c)) all_coords"

subsection \<open>The keyboard handler\<close>

text \<open>
  \<^verbatim>\<open>parseInt(key, 10)\<close>: leading white space is skipped, a sign is read, then the longest
  run of decimal digits; \<open>None\<close> is \<^verbatim>\<open>NaN\<close>.
\<close>

definition is_space :: "char \<Rightarrow> bool" where
  "is_space ch = (ch \<in> set [CHR 0x20, CHR 0x09, CHR 0x0A, CHR 0x0B, CHR 0x0C, CHR 0x0D])"

definition is_dec :: "char \<Rightarrow> bool" where
  "is_dec ch = (ch \<in> set ''0123456789'')"

definition dec_value :: "string \<Rightarrow> int" where
  "dec_value ds = foldl (\<lambda>acc ch. 10 * acc + (int (of_char ch) - 48)) 0 ds"

definition parseInt :: "string \<Rightarrow> int option" where
  "parseInt s =
     (let t = dropWhile is_space s;
          (neg, u) = (case t of
                        ch # rest \<Rightarrow> if ch = CHR ''-'' then (True, rest)
                                    else if ch = CHR ''+'' then (False, rest)
                                    else (False, t)
                      | [] \<Rightarrow> (False, t));
          ds = takeWhile is_dec u
      in if ds = [] then None
         else Some (if neg then - dec_value ds else dec_value ds))"

text \<open>The fields of the keyboard event that the handler reads.\<close>

record key_event =
  key :: string
  ctrlKey :: bool
  metaKey :: bool

text \<open>The component state that the handler reads and writes.\<close>

record game =
  puzzle :: board
  solution :: board
  board :: board
  pencilMode :: bool
  selectedCells :: "coords list"
  highlightNum :: "int option"
  completed :: bool

definition onBoardKeyDown :: "game \<Rightarrow> key_event \<Rightarrow> game" where
  "onBoardKeyDown g e =
     (if completed g then g
      else let digit = parseInt (key e);
               nextBoard = cloneBoard (board g)
           in if selectedCells g = [] then g
              else if key e = ''Backspace'' \<or> key e = ''Delete''
              then g\<lparr>board := clearCells (puzzle g) nextBoard (selectedCells g)\<rparr>
              else (case digit of
                      None \<Rightarrow> g
                    | Some d \<Rightarrow>
                        if d < 1 \<or> d > 9 then g
                        else let isPencilInput = (pencilMode g \<or> ctrlKey e \<or> metaKey e);
                                 nb = (if isPencilInput
                                       then toggleCandidate (puzzle g) nextBoard (selectedCells g) d
                                       else placeDigit (puzzle g) nextBoard (selectedCells g) d)
                             in if isPuzzleCompleted (solution g) nb
                                then g\<lparr>board := nb, highlightNum := None, completed := True,
                                       selectedCells := []\<rparr>
                                else g\<lparr>board := nb, highlightNum := Some d\<rparr>))"

text \<open>
  A session: the state after \<^verbatim>\<open>useState\<close> initialisation, then any sequence of player
  actions.  The pointer handlers only ever select cells that are rendered, so a selection
  is a list of coordinates of the 9x9 grid; the pencil button flips \<^verbatim>\<open>pencilMode\<close>.
\<close>

datatype action = KeyDown key_event | Select "coords list" | TogglePencil

definition initial :: "board \<Rightarrow> board \<Rightarrow> game" where
  "initial puz sol =
     \<lparr>puzzle = puz, solution = sol, board = cloneBoard puz, pencilMode = False,
      selectedCells = [], highlightNum = None, completed = False\<rparr>"

fun step :: "game \<Rightarrow> action \<Rightarrow> game" where
  "step g (KeyDown e) = onBoardKeyDown g e"
| "step g (Select sel) =
     (if list_all (\<lambda>(r, c). r < 9 \<and> c < 9) sel then g\<lparr>selectedCells := sel\<rparr> else g)"
| "step g TogglePencil = g\<lparr>pencilMode := \<not> pencilMode g\<rparr>"

definition run :: "game \<Rightarrow> action list \<Rightarrow> game" where
  "run g acts = foldl step g acts"

section \<open>Basic facts about boards; termination of the searches\<close>

lemma set_cell_beyond: "\<not> r < length b \<Longrightarrow> set_cell b r c v = b"
  by (simp add: set_cell_def list_update_beyond)

lemma length_set_cell: "length (set_cell b r c v) = length b"
  by (simp add: set_cell_def)

lemma length_row_set_cell: "length (set_cell b r c v ! r') = length (b ! r')"
proof (cases "r < length b")
  case True
  then show ?thesis by (cases "r' = r") (simp_all add: set_cell_def)
next
  case False
  then show ?thesis by (simp add: set_cell_beyond)
qed

lemma cell_at_set_cell:
  "cell_at (set_cell b r c v) r' c' =
     (if r' = r \<and> c' = c \<and> r < length b \<and> c < length (b ! r) then Some v else cell_at b r' c')"
proof (cases "r < length b")
  case False
  then show ?thesis by (simp add: set_cell_beyond)
next
  case True
  show ?thesis
  proof (cases "r' = r")
    case True
    with \<open>r < length b\<close> show ?thesis
      by (cases "c' = c") (simp_all add: cell_at_def set_cell_def)
  next
    case False
    then show ?thesis by (simp add: cell_at_def set_cell_def)
  qed
qed

lemma set_cell_twice: "set_cell (set_cell b r c v) r c w = set_cell b r c w"
  by (cases "r < length b") (simp_all add: set_cell_def list_update_beyond)

lemma set_cell_same: "cell_at b r c = Some v \<Longrightarrow> set_cell b r c v = b"
  by (auto simp: cell_at_def set_cell_def split: if_splits)

lemma cloneBoard_id: "cloneBoard b = b"
proof -
  have "(\<lambda>cell. case cell of Candidates s \<Rightarrow> Candidates s | _ \<Rightarrow> cell) = (\<lambda>cell. cell)"
    by (auto split: cell.splits)
  then show ?thesis by (simp add: cloneBoard_def)
qed

lemma length_filter_le:
  "(\<And>x. x \<in> set xs \<Longrightarrow> P x \<Longrightarrow> Q x) \<Longrightarrow> length (filter P xs) \<le> length (filter Q xs)"
  by (induction xs) auto

lemma length_filter_less:
  assumes "\<And>x. x \<in> set xs \<Longrightarrow> P x \<Longrightarrow> Q x" and "y \<in> set xs" and "Q y" and "\<not> P y"
  shows "length (filter P xs) < length (filter Q xs)"
  using assms
proof (induction xs)
  case Nil
  then show ?case by simp
next
  case (Cons x xs)
  have le: "length (filter P xs) \<le> length (filter Q xs)"
    using Cons.prems(1) by (intro length_filter_le) auto
  show ?case
  proof (cases "y = x")
    case True
    then show ?thesis using Cons.prems le by simp
  next
    case False
    then have "length (filter P xs) < length (filter Q xs)"
      using Cons by auto
    then show ?thesis using Cons.prems(1)[of x] by auto
  qed
qed

lemma set_all_coords: "set all_coords = {(r, c). r < 9 \<and> c < 9}"
  by (auto simp: all_coords_def)

lemma findEmpty_Some:
  assumes "findEmpty b = Some (r, c)"
  shows "cell_at b r c = Some Empty" and "r < 9" and "c < 9"
proof -
  from assms obtain i where "i < length all_coords" "all_coords ! i = (r, c)"
    "cell_at b r c = Some Empty"
    unfolding findEmpty_def find_Some_iff by auto
  then have "(r, c) \<in> set all_coords" by (metis nth_mem)
  then show "r < 9" "c < 9" by (simp_all add: set_all_coords)
  show "cell_at b r c = Some Empty" by fact
qed

lemma findEmpty_None:
  "findEmpty b = None \<longleftrightarrow> (\<forall>r<9. \<forall>c<9. cell_at b r c \<noteq> Some Empty)"
  unfolding findEmpty_def find_None_iff set_all_coords by auto

lemma count_empty_set_cell_less:
  assumes "cell_at b r c = Some Empty" "r < 9" "c < 9" "v \<noteq> Empty"
  shows "count_empty (set_cell b r c v) < count_empty b"
  unfolding count_empty_def
proof (rule length_filter_less[where y = "(r, c)"])
  show "(r, c) \<in> set all_coords" using assms by (simp add: set_all_coords)
  show "case (r, c) of (r, c) \<Rightarrow> cell_at b r c = Some Empty" using assms by simp
  show "\<not> (case (r, c) of (r', c') \<Rightarrow> cell_at (set_cell b r c v) r' c' = Some Empty)"
  proof -
    from assms(1) have "r < length b" "c < length (b ! r)"
      by (auto simp: cell_at_def split: if_splits)
    then show ?thesis using assms(4) by (simp add: cell_at_set_cell)
  qed
  fix x assume "x \<in> set all_coords" "case x of (r', c') \<Rightarrow> cell_at (set_cell b r c v) r' c' = Some Empty"
  then show "case x of (r', c') \<Rightarrow> cell_at b r' c' = Some Empty"
    using assms by (auto simp: cell_at_set_cell split: if_splits)
qed

lemma count_empty_set_cell_filled:
  "v \<noteq> Empty \<Longrightarrow> w \<noteq> Empty \<Longrightarrow> count_empty (set_cell b r c v) = count_empty (set_cell b r c w)"
  unfolding count_empty_def
  by (rule arg_cong[where f = length], rule filter_cong) (auto simp: cell_at_set_cell)

termination solve
  apply (relation "inv_image (less_than <*lex*> less_than)
    (\<lambda>x. case x of
       Inl (shuf, b, k) \<Rightarrow> (2 * count_empty b, 0)
     | Inr (shuf, b, r, c, nums, k) \<Rightarrow> (2 * count_empty (set_cell b r c (Digit 0)) + 1, length nums))")
  subgoal by (intro wf_inv_image wf_lex_prod wf_less_than)
  subgoal for shuf b k x x2 r c
    using count_empty_set_cell_less[of b r c "Digit 0"] findEmpty_Some[of b r c]
    by (simp add: cloneBoard_id)
  subgoal for shuf b r c num
    using count_empty_set_cell_filled[of "Digit num" "Digit 0" b r c] by simp
  subgoal by (simp add: set_cell_twice)
  subgoal by (simp add: set_cell_twice)
  done

lemma backtrack_restores_partial:
  "backtrack_backtrack_loop_dom (Inl (b, s)) \<Longrightarrow>
     snd (backtrack b s) \<le> 1 \<Longrightarrow> fst (backtrack b s) = b"
  "backtrack_backtrack_loop_dom (Inr (b, r, c, num, s)) \<Longrightarrow>
     cell_at b r c = Some Empty \<Longrightarrow>
     snd (backtrack_loop b r c num s) \<le> 1 \<Longrightarrow> fst (backtrack_loop b r c num s) = b"
proof (induct b s and b r c num s rule: backtrack_backtrack_loop.pinduct)
  case (1 b solutions)
  note dom = "1.hyps"(1) and IH = "1.hyps"(2) and le = "1.prems"(1)
  show ?case
  proof (cases "findEmpty b")
    case None
    then show ?thesis using dom by (simp add: backtrack.psimps)
  next
    case (Some rc)
    obtain r c where rc: "rc = (r, c)" by (cases rc)
    have e: "cell_at b r c = Some Empty" using findEmpty_Some(1)[of b r c] Some rc by simp
    show ?thesis
      using IH[OF Some rc[symmetric] e] le dom Some rc
      by (simp add: backtrack.psimps)
  qed
next
  case (2 b r c num solutions)
  note dom = "2.hyps"(1) and IH1 = "2.hyps"(2) and IH2 = "2.hyps"(3) and IH3 = "2.hyps"(4)
    and e = "2.prems"(1) and le = "2.prems"(2)
  show ?case
  proof (cases "num \<le> 9")
    case False
    then show ?thesis using dom by (simp add: backtrack_loop.psimps)
  next
    case n9: True
    show ?thesis
    proof (cases "count_isValid b num r c")
      case False
      then show ?thesis
        using IH3[OF n9 False e] le dom n9 by (simp add: backtrack_loop.psimps)
    next
      case v: True
      obtain b1 s1 where res: "backtrack (set_cell b r c (Digit num)) solutions = (b1, s1)"
        by (cases "backtrack (set_cell b r c (Digit num)) solutions")
      show ?thesis
      proof (cases "s1 > 1")
        case True
        then show ?thesis using le dom n9 v res by (simp add: backtrack_loop.psimps)
      next
        case s1: False
        then have "b1 = set_cell b r c (Digit num)"
          using IH1[OF n9 v] res by simp
        then have rest: "set_cell b1 r c Empty = b"
          using e by (simp add: set_cell_twice set_cell_same)
        have "fst (backtrack_loop (set_cell b1 r c Empty) r c (num + 1) s1) = set_cell b1 r c Empty"
          using IH2[OF n9 v res[symmetric] s1] e le dom n9 v res s1 rest
          by (simp add: backtrack_loop.psimps)
        then show ?thesis using dom n9 v res s1 rest by (simp add: backtrack_loop.psimps)
      qed
    qed
  qed
qed

lemma findEmpty_count_less:
  "findEmpty b = Some (r, c) \<Longrightarrow> count_empty (set_cell b r c (Digit n)) < count_empty b"
  using count_empty_set_cell_less[of b r c "Digit n"] findEmpty_Some[of b r c] by simp

termination backtrack
  apply (relation "inv_image (less_than <*lex*> less_than)
    (\<lambda>x. case x of
       Inl (b, s) \<Rightarrow> (2 * count_empty b, 0)
     | Inr (b, r, c, num, s) \<Rightarrow> (2 * count_empty (set_cell b r c (Digit 0)) + 1, nat (10 - num)))")
  subgoal by (intro wf_inv_image wf_lex_prod wf_less_than)
  subgoal for b s x2 r c
    using findEmpty_count_less[of b r c 0] by auto
  subgoal for b r c num
    using count_empty_set_cell_filled[of "Digit num" "Digit 0" b r c] by simp
  subgoal for b r c num s
    using backtrack_restores_partial(1)[of "set_cell b r c (Digit num)" s]
    by (auto simp: set_cell_twice dest: sym)
  subgoal by simp
  done

section \<open>Facts about boards and pruning\<close>

definition shape :: "board \<Rightarrow> nat list" where
  "shape b = map length b"

lemma shape_set_cell: "shape (set_cell b r c v) = shape b"
  unfolding shape_def
  by (rule nth_equalityI) (simp_all add: length_set_cell length_row_set_cell)

lemma board_eqI:
  assumes sh: "shape a = shape b" and cells: "\<And>r c. cell_at a r c = cell_at b r c"
  shows "a = b"
proof (rule nth_equalityI)
  show len: "length a = length b" using sh unfolding shape_def by (metis length_map)
  fix r assume r: "r < length a"
  have lr: "length (a ! r) = length (b ! r)"
    using sh r len unfolding shape_def by (metis nth_map)
  show "a ! r = b ! r"
  proof (rule nth_equalityI)
    show "length (a ! r) = length (b ! r)" by (rule lr)
    fix c assume "c < length (a ! r)"
    then show "a ! r ! c = b ! r ! c"
      using cells[of r c] r len lr by (simp add: cell_at_def)
  qed
qed

lemma wf_board_shape: "wf_board b \<longleftrightarrow> shape b = replicate 9 9"
  unfolding wf_board_def shape_def list_all_length list_eq_iff_nth_eq by auto

lemma wf_board_cell_at: "wf_board b \<Longrightarrow> r < 9 \<Longrightarrow> c < 9 \<Longrightarrow> cell_at b r c = Some (b ! r ! c)"
  by (simp add: wf_board_def cell_at_def list_all_length)

lemma wf_set_cell: "wf_board b \<Longrightarrow> wf_board (set_cell b r c v)"
  by (simp add: wf_board_shape shape_set_cell)

lemma wf_emptyBoard: "wf_board emptyBoard"
  by (simp add: wf_board_def emptyBoard_def list_all_length)

lemma cell_at_emptyBoard: "cell_at emptyBoard r c = (if r < 9 \<and> c < 9 then Some Empty else None)"
  by (auto simp: cell_at_def emptyBoard_def)

lemma pruned_idem: "pruned v (pruned v x) = pruned v x"
  by (cases x) auto

lemma prune_cell_eq:
  "prune_cell b r c v = (case cell_at b r c of Some x \<Rightarrow> set_cell b r c (pruned v x) | None \<Rightarrow> b)"
  unfolding prune_cell_def
  by (auto split: option.splits cell.splits simp: set_cell_same)

lemma shape_prune_cell: "shape (prune_cell b r c v) = shape b"
  by (simp add: prune_cell_eq shape_set_cell split: option.splits)

lemma cell_at_prune_cell:
  "cell_at (prune_cell b r c v) r' c' =
     (if r' = r \<and> c' = c then map_option (pruned v) (cell_at b r c) else cell_at b r' c')"
proof (cases "cell_at b r c")
  case None
  then show ?thesis by (simp add: prune_cell_eq)
next
  case (Some x)
  then have "r < length b" "c < length (b ! r)"
    by (auto simp: cell_at_def split: if_splits)
  then show ?thesis using Some by (simp add: prune_cell_eq cell_at_set_cell)
qed

text \<open>\<open>prunes_on v S b nb\<close>: board \<open>nb\<close> is board \<open>b\<close> with \<open>v\<close> deleted from the pencil marks
  of the cells in \<open>S\<close>.\<close>

definition prunes_on :: "int \<Rightarrow> coords set \<Rightarrow> board \<Rightarrow> board \<Rightarrow> bool" where
  "prunes_on v S b nb \<longleftrightarrow>
     shape nb = shape b \<and>
     (\<forall>r c. cell_at nb r c = (if (r, c) \<in> S then map_option (pruned v) (cell_at b r c)
                                 else cell_at b r c))"

lemma prunes_on_refl: "prunes_on v {} b b"
  by (simp add: prunes_on_def)

lemma prunes_on_step:
  assumes "prunes_on v S b nb"
  shows "prunes_on v (insert (r, c) S) b (prune_cell nb r c v)"
  using assms unfolding prunes_on_def
  by (auto simp: shape_prune_cell cell_at_prune_cell option.map_comp comp_def pruned_idem
      intro!: option.map_cong)

lemma prunes_on_fold:
  assumes "\<And>x S nb. x \<in> set xs \<Longrightarrow> prunes_on v S b nb \<Longrightarrow> prunes_on v (S \<union> g x) b (f x nb)"
    and "prunes_on v S b b0"
  shows "prunes_on v (S \<union> \<Union>(g ` set xs)) b (fold f xs b0)"
  using assms
proof (induction xs arbitrary: S b0)
  case Nil
  then show ?case by simp
next
  case (Cons x xs)
  have "prunes_on v (S \<union> g x) b (f x b0)"
    using Cons.prems by simp
  then have "prunes_on v ((S \<union> g x) \<union> \<Union>(g ` set xs)) b (fold f xs (f x b0))"
    using Cons.prems(1) by (intro Cons.IH) auto
  moreover have "(S \<union> g x) \<union> \<Union>(g ` set xs) = S \<union> \<Union>(g ` set (x # xs))"
    by auto
  ultimately show ?case by simp
qed

lemma in_box_iff: "i \<in> set [(r div 3) * 3..<(r div 3) * 3 + 3] \<longleftrightarrow> i div 3 = r div 3"
proof -
  have "(r div 3) * 3 \<le> i \<and> i < (r div 3) * 3 + 3 \<longleftrightarrow> i div 3 = r div 3" by arith
  then show ?thesis by simp
qed

lemma box_lt: "(i::nat) div 3 = r div 3 \<Longrightarrow> r < 9 \<Longrightarrow> i < 9"
  by arith

lemma box_bex:
  "(\<exists>i\<in>set [(r div 3) * 3..<(r div 3) * 3 + 3]. P i) \<longleftrightarrow> (\<exists>i. i div 3 = r div 3 \<and> P i)"
  unfolding Bex_def in_box_iff by blast

lemma row_bex: "(\<exists>i\<in>set [0..<9]. P i) \<longleftrightarrow> (\<exists>i<9. P (i::nat))"
  by auto

lemma unit_cells_eq:
  assumes "row < 9" "col < 9"
  shows "(\<Union>i\<in>set [0..<9]. {(row, i), (i, col)})
         \<union> (\<Union>r\<in>set [(row div 3) * 3..<(row div 3) * 3 + 3].
              \<Union>c\<in>set [(col div 3) * 3..<(col div 3) * 3 + 3]. {(r, c)})
       = {(r, c). r < 9 \<and> c < 9 \<and> same_unit row col r c}" (is "?A \<union> ?B = ?C")
proof (rule set_eqI)
  fix x :: coords
  obtain r c where x: "x = (r, c)" by (cases x)
  have a: "x \<in> ?A \<longleftrightarrow> (r = row \<and> c < 9) \<or> (c = col \<and> r < 9)"
    unfolding x by auto
  have b: "x \<in> ?B \<longleftrightarrow> r div 3 = row div 3 \<and> c div 3 = col div 3"
    using in_box_iff[of r row] in_box_iff[of c col] unfolding x by simp
  have "x \<in> ?C \<longleftrightarrow> r < 9 \<and> c < 9 \<and> (r = row \<or> c = col \<or> (r div 3 = row div 3 \<and> c div 3 = col div 3))"
    unfolding x same_unit_def by simp
  then show "x \<in> ?A \<union> ?B \<longleftrightarrow> x \<in> ?C"
    using a b assms box_lt[of r row] box_lt[of c col] by auto
qed

lemma prunes_on_removeCandidates:
  assumes "row < 9" "col < 9"
  shows "prunes_on v {(r, c). r < 9 \<and> c < 9 \<and> same_unit row col r c} b (removeCandidates b row col v)"
proof -
  let ?f1 = "\<lambda>i nb. prune_cell (prune_cell nb row i v) i col v"
  let ?cols = "[(col div 3) * 3..<(col div 3) * 3 + 3]"
  let ?rows = "[(row div 3) * 3..<(row div 3) * 3 + 3]"
  let ?A = "\<Union>i\<in>set [0..<9]. {(row, i), (i, col)}"
  let ?B = "\<Union>r\<in>set ?rows. \<Union>c\<in>set ?cols. {(r, c)}"
  have s1: "prunes_on v (S \<union> {(row, i), (i, col)}) b (?f1 i nb)" if "prunes_on v S b nb" for S nb i
  proof -
    have "prunes_on v (insert (i, col) (insert (row, i) S)) b (?f1 i nb)"
      by (intro prunes_on_step that)
    moreover have "insert (i, col) (insert (row, i) S) = S \<union> {(row, i), (i, col)}" by auto
    ultimately show ?thesis by simp
  qed
  have "prunes_on v ({} \<union> ?A) b (fold ?f1 [0..<9] b)"
    by (rule prunes_on_fold[OF s1 prunes_on_refl])
  then have p1: "prunes_on v ?A b (fold ?f1 [0..<9] b)" by simp
  have s2: "prunes_on v (S \<union> (\<Union>c\<in>set ?cols. {(r, c)})) b
              (fold (\<lambda>c nb1. prune_cell nb1 r c v) ?cols nb)" if "prunes_on v S b nb" for S nb r
  proof (rule prunes_on_fold[OF _ that])
    fix x S' nb' assume "prunes_on v S' b nb'"
    then have "prunes_on v (insert (r, x) S') b (prune_cell nb' r x v)" by (rule prunes_on_step)
    then show "prunes_on v (S' \<union> {(r, x)}) b (prune_cell nb' r x v)" by simp
  qed
  have "prunes_on v (?A \<union> ?B) b
          (fold (\<lambda>r nb. fold (\<lambda>c nb1. prune_cell nb1 r c v) ?cols nb) ?rows (fold ?f1 [0..<9] b))"
    by (rule prunes_on_fold[OF s2 p1])
  then show ?thesis
    unfolding unit_cells_eq[OF assms] removeCandidates_def Let_def .
qed

lemma cell_at_removeCandidates:
  assumes "row < 9" "col < 9"
  shows "cell_at (removeCandidates b row col v) r c =
           (if r < 9 \<and> c < 9 \<and> same_unit row col r c then map_option (pruned v) (cell_at b r c)
            else cell_at b r c)"
  using prunes_on_removeCandidates[OF assms, of v b] unfolding prunes_on_def by simp

lemma shape_removeCandidates:
  "row < 9 \<Longrightarrow> col < 9 \<Longrightarrow> shape (removeCandidates b row col v) = shape b"
  using prunes_on_removeCandidates[of row col v b] unfolding prunes_on_def by simp

lemma cell_at_set_cell_iff:
  "cell_at (set_cell b r c v) r' c' =
     (if r' = r \<and> c' = c \<and> cell_at b r c \<noteq> None then Some v else cell_at b r' c')"
proof -
  have e: "(cell_at b r c \<noteq> None) = (r < length b \<and> c < length (b ! r))"
    by (simp add: cell_at_def)
  show ?thesis unfolding e by (rule cell_at_set_cell)
qed

subsection \<open>The pencil-mark conflict test\<close>

lemma pencilConflict_iff:
  assumes "r < 9" "c < 9"
  shows "pencilConflict b r c n \<longleftrightarrow>
    (\<exists>r' c'. r' < 9 \<and> c' < 9 \<and> same_unit r c r' c' \<and> cell_at b r' c' = Some (Digit n))"
proof
  assume "pencilConflict b r c n"
  then consider i where "i < 9" "cell_at b r i = Some (Digit n)"
    | i where "i < 9" "cell_at b i c = Some (Digit n)"
    | i j where "i div 3 = r div 3" "j div 3 = c div 3" "cell_at b i j = Some (Digit n)"
    unfolding pencilConflict_def Let_def list_ex_iff box_bex row_bex by blast
  then show "\<exists>r' c'. r' < 9 \<and> c' < 9 \<and> same_unit r c r' c' \<and> cell_at b r' c' = Some (Digit n)"
  proof cases
    case 1 then show ?thesis using assms unfolding same_unit_def by blast
  next
    case 2 then show ?thesis using assms unfolding same_unit_def by blast
  next
    case 3
    moreover from 3 assms have "i < 9" "j < 9" by (auto intro: box_lt)
    ultimately show ?thesis unfolding same_unit_def by blast
  qed
next
  assume "\<exists>r' c'. r' < 9 \<and> c' < 9 \<and> same_unit r c r' c' \<and> cell_at b r' c' = Some (Digit n)"
  then obtain r' c' where h: "r' < 9" "c' < 9" "same_unit r c r' c'" "cell_at b r' c' = Some (Digit n)"
    by blast
  from h(3) consider "r' = r" | "c' = c" | "r' div 3 = r div 3 \<and> c' div 3 = c div 3"
    unfolding same_unit_def by blast
  then show "pencilConflict b r c n"
  proof cases
    case 1 with h show ?thesis
      unfolding pencilConflict_def Let_def list_ex_iff box_bex row_bex by blast
  next
    case 2 with h show ?thesis
      unfolding pencilConflict_def Let_def list_ex_iff box_bex row_bex by blast
  next
    case 3 with h show ?thesis
      unfolding pencilConflict_def Let_def list_ex_iff box_bex row_bex by blast
  qed
qed

section \<open>A generated puzzle used in the examples\<close>

text \<open>A complete grid and a puzzle carved from it by removing 46 cells; the generator
  section below shows that \<^verbatim>\<open>generateNewPuzzle\<close> returns this pair for one run of the
  random source.\<close>

definition example_solution :: board where
  "example_solution =
     [[Digit 8, Digit 3, Digit 1, Digit 7, Digit 2, Digit 5, Digit 4, Digit 6, Digit 9],
      [Digit 4, Digit 7, Digit 9, Digit 1, Digit 8, Digit 6, Digit 3, Digit 2, Digit 5],
      [Digit 2, Digit 6, Digit 5, Digit 4, Digit 3, Digit 9, Digit 8, Digit 7, Digit 1],
      [Digit 3, Digit 8, Digit 7, Digit 6, Digit 4, Digit 1, Digit 9, Digit 5, Digit 2],
      [Digit 5, Digit 1, Digit 2, Digit 3, Digit 9, Digit 7, Digit 6, Digit 4, Digit 8],
      [Digit 6, Digit 9, Digit 4, Digit 2, Digit 5, Digit 8, Digit 7, Digit 1, Digit 3],
      [Digit 9, Digit 4, Digit 6, Digit 5, Digit 1, Digit 3, Digit 2, Digit 8, Digit 7],
      [Digit 7, Digit 5, Digit 3, Digit 8, Digit 6, Digit 2, Digit 1, Digit 9, Digit 4],
      [Digit 1, Digit 2, Digit 8, Digit 9, Digit 7, Digit 4, Digit 5, Digit 3, Digit 6]]"

definition example_puzzle :: board where
  "example_puzzle =
     [[Digit 8, Digit 3, Digit 1, Digit 7, Digit 2, Digit 5, Empty, Digit 6, Empty],
      [Empty, Digit 7, Digit 9, Empty, Digit 8, Empty, Digit 3, Digit 2, Empty],
      [Empty, Digit 6, Empty, Digit 4, Digit 3, Empty, Digit 8, Empty, Empty],
      [Empty, Digit 8, Digit 7, Digit 6, Digit 4, Empty, Digit 9, Empty, Empty],
      [Digit 5, Digit 1, Empty, Digit 3, Empty, Digit 7, Empty, Digit 4, Empty],
      [Digit 6, Empty, Empty, Digit 2, Empty, Empty, Empty, Digit 1, Empty],
      [Empty, Digit 4, Digit 6, Empty, Digit 1, Empty, Empty, Empty, Empty],
      [Digit 7, Empty, Empty, Digit 8, Empty, Digit 2, Empty, Empty, Empty],
      [Empty, Empty, Empty, Empty, Empty, Empty, Empty, Empty, Empty]]"

lemma wf_example_puzzle: "wf_board example_puzzle"
  by (simp add: wf_board_def example_puzzle_def)

lemma wf_example_solution: "wf_board example_solution"
  by (simp add: wf_board_def example_solution_def)

lemma all_lt_9:
  "(\<forall>i<9. P (i::nat)) \<longleftrightarrow> P 0 \<and> P 1 \<and> P 2 \<and> P 3 \<and> P 4 \<and> P 5 \<and> P 6 \<and> P 7 \<and> P 8"
proof -
  have "{..<9::nat} = {0, 1, 2, 3, 4, 5, 6, 7, 8}" by auto
  then have "(\<forall>i<9. P i) \<longleftrightarrow> (\<forall>i\<in>{0, 1, 2, 3, 4, 5, 6, 7, 8}. P i)"
    by (metis lessThan_iff)
  then show ?thesis by simp
qed

lemma example_puzzle_cells:
  "cell_at example_puzzle 0 0 = Some (Digit 8)"
  "cell_at example_puzzle 0 6 = Some Empty"
  "cell_at example_puzzle 8 0 = Some Empty"
  "cell_at example_puzzle 8 2 = Some Empty"
  "cell_at example_puzzle 8 8 = Some Empty"
  by (simp_all add: example_puzzle_def cell_at_def)

lemma example_puzzle_no_marks: "r < 9 \<Longrightarrow> c < 9 \<Longrightarrow> cell_at example_puzzle r c \<noteq> Some (Candidates s)"
proof -
  have "\<forall>r<9. \<forall>c<9. cell_at example_puzzle r c \<noteq> Some (Candidates s)"
    unfolding all_lt_9 by (simp add: example_puzzle_def cell_at_def)
  then show "r < 9 \<Longrightarrow> c < 9 \<Longrightarrow> cell_at example_puzzle r c \<noteq> Some (Candidates s)" by blast
qed

text \<open>The example puzzle after the player has placed 5 at the free cell (0,6).\<close>

definition example_board :: board where
  "example_board = set_cell example_puzzle 0 6 (Digit 5)"

lemma cell_at_example_board:
  "cell_at example_board r c = (if r = 0 \<and> c = 6 then Some (Digit 5) else cell_at example_puzzle r c)"
  by (simp add: example_board_def cell_at_set_cell_iff example_puzzle_cells)

lemma wf_example_board: "wf_board example_board"
  by (simp add: example_board_def wf_set_cell wf_example_puzzle)

text \<open>The example puzzle after the player has pencilled 5 into the free cell (8,2).\<close>

definition example_marked :: board where
  "example_marked = set_cell example_puzzle 8 2 (Candidates {5})"

lemma cell_at_example_marked:
  "cell_at example_marked r c =
     (if r = 8 \<and> c = 2 then Some (Candidates {5}) else cell_at example_puzzle r c)"
  by (simp add: example_marked_def cell_at_set_cell_iff example_puzzle_cells)

subsection \<open>The pencil-mark conflict test at its call site\<close>



section \<open>Placing digits\<close>

text \<open>Writing one value into every selected cell that is not given.\<close>

definition set_all :: "board \<Rightarrow> cell \<Rightarrow> coords list \<Rightarrow> board \<Rightarrow> board" where
  "set_all puz v sel b = fold (\<lambda>(r, c) nb. if isGiven puz r c then nb else set_cell nb r c v) sel b"

text \<open>The loop body of the digit branch when not every selected cell holds the digit.\<close>

definition place_step :: "board \<Rightarrow> int \<Rightarrow> coords \<Rightarrow> board \<Rightarrow> board" where
  "place_step puz digit = (\<lambda>(r, c) nb.
     if isGiven puz r c then nb
     else removeCandidates (set_cell nb r c (Digit digit)) r c digit)"

definition in_grid :: "coords list \<Rightarrow> bool" where
  "in_grid sel = list_all (\<lambda>(r, c). r < 9 \<and> c < 9) sel"

lemma in_grid_Cons: "in_grid ((r, c) # sel) \<longleftrightarrow> r < 9 \<and> c < 9 \<and> in_grid sel"
  by (simp add: in_grid_def)

lemma in_gridD: "in_grid sel \<Longrightarrow> (r, c) \<in> set sel \<Longrightarrow> r < 9 \<and> c < 9"
  by (auto simp: in_grid_def list_all_iff)

lemma shape_set_all: "shape (set_all puz v sel b) = shape b"
  unfolding set_all_def
  by (induction sel arbitrary: b) (auto simp: shape_set_cell)

lemma cell_at_set_all:
  "cell_at (set_all puz v sel b) r c =
     (if (r, c) \<in> set sel \<and> \<not> isGiven puz r c \<and> cell_at b r c \<noteq> None then Some v
      else cell_at b r c)"
  unfolding set_all_def
proof (induction sel arbitrary: b)
  case Nil
  then show ?case by simp
next
  case (Cons x sel)
  obtain r' c' where x: "x = (r', c')" by (cases x)
  show ?case
    unfolding x by (auto simp: Cons.IH cell_at_set_cell_iff)
qed

lemma clearCells_set_all: "clearCells puz b sel = set_all puz Empty sel b"
  unfolding clearCells_def set_all_def
  by (rule arg_cong[where f = "\<lambda>f. fold f sel b"]) (auto simp: fun_eq_iff)

lemma placeDigit_cases:
  "placeDigit puz b sel d =
     (if numberExistsInAll b sel d then set_all puz Empty sel b else fold (place_step puz d) sel b)"
proof (cases "numberExistsInAll b sel d")
  case True
  then have "placeDigit puz b sel d =
    fold (\<lambda>(r, c) nb. if isGiven puz r c then nb else set_cell nb r c Empty) sel b"
    unfolding placeDigit_def Let_def
    by (intro arg_cong[where f = "\<lambda>f. fold f sel b"]) (auto simp: fun_eq_iff)
  then show ?thesis using True by (simp add: set_all_def)
next
  case False
  then have "placeDigit puz b sel d = fold (place_step puz d) sel b"
    unfolding placeDigit_def Let_def place_step_def
    by (intro arg_cong[where f = "\<lambda>f. fold f sel b"]) (auto simp: fun_eq_iff)
  then show ?thesis using False by simp
qed

lemma numberExistsInAll_iff:
  "numberExistsInAll b sel d \<longleftrightarrow> (\<forall>(r, c)\<in>set sel. cell_at b r c = Some (Digit d))"
  by (simp add: numberExistsInAll_def list_all_iff)

lemma cell_at_place_step_digit:
  assumes "r' < 9" "c' < 9" "cell_at nb r c = Some (Digit d)"
  shows "cell_at (place_step puz d (r', c') nb) r c = Some (Digit d)"
  using assms by (simp add: place_step_def cell_at_removeCandidates cell_at_set_cell_iff)

lemma cell_at_place_step_self:
  assumes "r < 9" "c < 9" "\<not> isGiven puz r c" "cell_at nb r c \<noteq> None"
  shows "cell_at (place_step puz d (r, c) nb) r c = Some (Digit d)"
  using assms by (simp add: place_step_def cell_at_removeCandidates cell_at_set_cell_iff)

lemma cell_at_place_step_None:
  assumes "r' < 9" "c' < 9"
  shows "cell_at (place_step puz d (r', c') nb) r c = None \<longleftrightarrow> cell_at nb r c = None"
  using assms by (simp add: place_step_def cell_at_removeCandidates cell_at_set_cell_iff)

lemma fold_place_step_digit:
  assumes "in_grid sel" "cell_at b r c \<noteq> None"
    and "cell_at b r c = Some (Digit d) \<or> ((r, c) \<in> set sel \<and> \<not> isGiven puz r c)"
  shows "cell_at (fold (place_step puz d) sel b) r c = Some (Digit d)"
  using assms
proof (induction sel arbitrary: b)
  case Nil
  then show ?case by simp
next
  case (Cons x sel)
  obtain r' c' where x: "x = (r', c')" by (cases x)
  have rc: "r' < 9" "c' < 9" and g: "in_grid sel" using Cons.prems(1) by (simp_all add: x in_grid_Cons)
  let ?b = "place_step puz d (r', c') b"
  have ne: "cell_at ?b r c \<noteq> None"
    using Cons.prems(2) by (simp add: cell_at_place_step_None[OF rc])
  have "cell_at ?b r c = Some (Digit d) \<or> ((r, c) \<in> set sel \<and> \<not> isGiven puz r c)"
  proof (cases "cell_at b r c = Some (Digit d)")
    case True
    then show ?thesis by (simp add: cell_at_place_step_digit[OF rc])
  next
    case False
    with Cons.prems(3) have m: "(r, c) \<in> set (x # sel)" "\<not> isGiven puz r c" by auto
    show ?thesis
    proof (cases "(r, c) = (r', c')")
      case True
      then show ?thesis
        using cell_at_place_step_self[of r c puz b d] rc m(2) Cons.prems(2) by simp
    next
      case False
      then show ?thesis using m by (auto simp: x)
    qed
  qed
  from Cons.IH[OF g ne this] show ?case by (simp add: x)
qed

text \<open>
  Claim C7 as stated fails: the test \<^verbatim>\<open>numberExistsInAll\<close> ranges over every selected
  cell, the given ones included.  In the example, (0,0) is given (it holds 8) and (0,6) is
  not given and holds the 5 the player placed.  With both selected, every selected cell
  that is not given holds 5, yet pressing 5 does not empty (0,6).
\<close>

theorem placeDigit_toggle_counterexample:
  "isGiven example_puzzle 0 0 \<and> \<not> isGiven example_puzzle 0 6
   \<and> cell_at example_board 0 6 = Some (Digit 5)
   \<and> cell_at (placeDigit example_puzzle example_board [(0, 0), (0, 6)] 5) 0 6 = Some (Digit 5)"
proof -
  have n: "\<not> numberExistsInAll example_board [(0, 0), (0, 6)] 5"
    by (simp add: numberExistsInAll_def cell_at_example_board example_puzzle_cells)
  have g: "\<not> isGiven example_puzzle 0 6" "isGiven example_puzzle 0 0"
    by (simp_all add: isGiven_def example_puzzle_cells)
  have "cell_at (fold (place_step example_puzzle 5) [(0, 0), (0, 6)] example_board) 0 6 = Some (Digit 5)"
    by (rule fold_place_step_digit) (simp_all add: in_grid_def cell_at_example_board)
  then show ?thesis using n g by (simp add: placeDigit_cases cell_at_example_board)
qed

text \<open>
  Claim C7, amended: on a well-formed board and for a selection of cells of the grid,
  \<^verbatim>\<open>place_digit\<close> leaves every selected cell that is not given Empty exactly when every
  selected cell, the given ones included, holds the digit; otherwise every selected cell
  that is not given ends up holding the digit.
\<close>

theorem placeDigit_selected_cell:
  assumes "wf_board b" "in_grid sel" "(r, c) \<in> set sel" "\<not> isGiven puz r c"
  shows "cell_at (placeDigit puz b sel d) r c =
           Some (if (\<forall>(r', c')\<in>set sel. cell_at b r' c' = Some (Digit d)) then Empty else Digit d)"
proof -
  have rc: "r < 9" "c < 9" using in_gridD[OF assms(2,3)] by simp_all
  then have ne: "cell_at b r c \<noteq> None" using wf_board_cell_at[OF assms(1)] by simp
  define allHold where "allHold \<longleftrightarrow> (\<forall>(r', c')\<in>set sel. cell_at b r' c' = Some (Digit d))"
  have n: "numberExistsInAll b sel d = allHold"
    unfolding allHold_def by (rule numberExistsInAll_iff)
  have "cell_at (placeDigit puz b sel d) r c = Some (if allHold then Empty else Digit d)"
  proof (cases allHold)
    case True
    then show ?thesis
      using assms(3,4) ne n by (simp add: placeDigit_cases cell_at_set_all)
  next
    case False
    have "cell_at (fold (place_step puz d) sel b) r c = Some (Digit d)"
      using assms ne by (intro fold_place_step_digit) simp_all
    then show ?thesis
      using False n by (simp add: placeDigit_cases)
  qed
  then show ?thesis unfolding allHold_def .
qed

theorem placeDigit_selected_cell_witness:
  "wf_board example_board \<and> in_grid [(0, 0), (0, 6)] \<and> \<not> isGiven example_puzzle 0 6
   \<and> cell_at (placeDigit example_puzzle example_board [(0, 0), (0, 6)] 5) 0 6 = Some (Digit 5)
   \<and> cell_at (placeDigit example_puzzle example_board [(0, 6)] 5) 0 6 = Some Empty"
proof -
  have g: "\<not> isGiven example_puzzle 0 6"
    by (simp add: isGiven_def example_puzzle_cells)
  have i: "in_grid [(0, 0), (0, 6)]" "in_grid [(0, 6)]" by (simp_all add: in_grid_def)
  show ?thesis
    using placeDigit_selected_cell[OF wf_example_board i(1) _ g, of 5]
      placeDigit_selected_cell[OF wf_example_board i(2) _ g, of 5] wf_example_board g i
    by (simp add: cell_at_example_board example_puzzle_cells)
qed

subsection \<open>Placing the same digit twice: the board computation\<close>

text \<open>The cell holds pencil marks that include the digit.\<close>

fun has_mark :: "int \<Rightarrow> cell option \<Rightarrow> bool" where
  "has_mark d (Some (Candidates s)) = (d \<in> s)"
| "has_mark d _ = False"

lemma pruned_no_mark: "\<not> has_mark d x \<Longrightarrow> map_option (pruned d) x = x"
proof (cases x)
  case None
  then show ?thesis by simp
next
  case (Some y)
  assume "\<not> has_mark d x"
  then show ?thesis using Some by (cases y) auto
qed

lemma removeCandidates_no_mark:
  assumes "r < 9" "c < 9"
    and "\<And>r' c'. r' < 9 \<Longrightarrow> c' < 9 \<Longrightarrow> same_unit r c r' c' \<Longrightarrow> \<not> has_mark d (cell_at nb r' c')"
  shows "removeCandidates nb r c d = nb"
proof (rule board_eqI)
  show "shape (removeCandidates nb r c d) = shape nb"
    using assms(1,2) by (rule shape_removeCandidates)
  fix r' c'
  show "cell_at (removeCandidates nb r c d) r' c' = cell_at nb r' c'"
    using assms(3)[of r' c'] by (simp add: cell_at_removeCandidates[OF assms(1,2)] pruned_no_mark)
qed

lemma has_mark_set_cell_Digit:
  "has_mark d (cell_at (set_cell b r c (Digit x)) r' c') \<Longrightarrow> has_mark d (cell_at b r' c')"
  by (auto simp: cell_at_set_cell_iff split: if_splits)

definition marks_clear :: "board \<Rightarrow> board \<Rightarrow> coords list \<Rightarrow> int \<Rightarrow> bool" where
  "marks_clear puz b sel d \<longleftrightarrow>
     (\<forall>(r, c)\<in>set sel. \<not> isGiven puz r c \<longrightarrow>
        (\<forall>r'<9. \<forall>c'<9. same_unit r c r' c' \<longrightarrow> \<not> has_mark d (cell_at b r' c')))"

lemma marks_clear_Cons:
  "marks_clear puz b ((r, c) # sel) d \<longleftrightarrow>
     (\<not> isGiven puz r c \<longrightarrow>
        (\<forall>r'<9. \<forall>c'<9. same_unit r c r' c' \<longrightarrow> \<not> has_mark d (cell_at b r' c')))
     \<and> marks_clear puz b sel d"
  by (simp add: marks_clear_def)

lemma marks_clear_set_cell:
  "marks_clear puz b sel d \<Longrightarrow> marks_clear puz (set_cell b r c (Digit x)) sel d"
  unfolding marks_clear_def using has_mark_set_cell_Digit by blast

lemma fold_place_step_set_all:
  assumes "in_grid sel" "marks_clear puz b sel d"
  shows "fold (place_step puz d) sel b = set_all puz (Digit d) sel b"
  using assms
proof (induction sel arbitrary: b)
  case Nil
  then show ?case by (simp add: set_all_def)
next
  case (Cons x sel)
  obtain r c where x: "x = (r, c)" by (cases x)
  have rc: "r < 9" "c < 9" and g: "in_grid sel" using Cons.prems(1) by (simp_all add: x in_grid_Cons)
  have mc: "marks_clear puz b sel d"
    and near: "\<not> isGiven puz r c \<Longrightarrow> r' < 9 \<Longrightarrow> c' < 9 \<Longrightarrow> same_unit r c r' c'
               \<Longrightarrow> \<not> has_mark d (cell_at b r' c')" for r' c'
    using Cons.prems(2) unfolding x marks_clear_Cons by simp_all
  show ?case
  proof (cases "isGiven puz r c")
    case True
    from Cons.IH[OF g mc] show ?thesis using True by (simp add: x place_step_def set_all_def)
  next
    case False
    let ?b = "set_cell b r c (Digit d)"
    have "\<not> has_mark d (cell_at ?b r' c')" if "r' < 9" "c' < 9" "same_unit r c r' c'" for r' c'
      using near[OF False that] has_mark_set_cell_Digit[of d b r c d r' c'] by blast
    then have e: "place_step puz d (r, c) b = ?b"
      using False rc by (simp add: place_step_def removeCandidates_no_mark)
    have "marks_clear puz ?b sel d" using mc by (rule marks_clear_set_cell)
    from Cons.IH[OF g this] show ?thesis using False e by (simp add: x set_all_def)
  qed
qed

lemma set_all_unchanged:
  assumes "\<And>r c. (r, c) \<in> set sel \<Longrightarrow> \<not> isGiven puz r c \<Longrightarrow> cell_at b r c = Some v"
  shows "set_all puz v sel b = b"
  by (rule board_eqI) (auto simp: shape_set_all cell_at_set_all assms)

lemma placeDigit_twice:
  assumes "in_grid sel"
    and h1: "\<forall>(r, c)\<in>set sel. if isGiven puz r c then cell_at b r c = Some (Digit d)
                               else cell_at b r c = Some Empty"
    and h2: "marks_clear puz b sel d"
  shows "placeDigit puz (placeDigit puz b sel d) sel d = b"
proof (cases "numberExistsInAll b sel d")
  case True
  then have "\<And>r c. (r, c) \<in> set sel \<Longrightarrow> \<not> isGiven puz r c \<Longrightarrow> cell_at b r c = Some Empty"
    using h1 by auto
  then have "set_all puz Empty sel b = b" by (rule set_all_unchanged)
  then show ?thesis using True by (simp add: placeDigit_cases)
next
  case False
  let ?b1 = "set_all puz (Digit d) sel b"
  have p1: "placeDigit puz b sel d = ?b1"
    using False fold_place_step_set_all[OF assms(1) h2] by (simp add: placeDigit_cases)
  have "numberExistsInAll ?b1 sel d"
    unfolding numberExistsInAll_iff using h1 by (auto simp: cell_at_set_all split: if_splits)
  then have p2: "placeDigit puz ?b1 sel d = set_all puz Empty sel ?b1"
    by (simp add: placeDigit_cases)
  have "set_all puz Empty sel ?b1 = b"
  proof (rule board_eqI)
    show "shape (set_all puz Empty sel ?b1) = shape b" by (simp add: shape_set_all)
    fix r c
    show "cell_at (set_all puz Empty sel ?b1) r c = cell_at b r c"
      using h1 by (auto simp: cell_at_set_all split: if_splits)
  qed
  then show ?thesis using p1 p2 by simp
qed

lemma has_mark_set_all_Empty:
  "has_mark d (cell_at (set_all puz Empty sel' b) r c) \<Longrightarrow> has_mark d (cell_at b r c)"
  by (auto simp: cell_at_set_all split: if_splits)

lemma marks_clear_set_all_Empty:
  "marks_clear puz b sel d \<Longrightarrow> marks_clear puz (set_all puz Empty sel' b) sel d"
  unfolding marks_clear_def using has_mark_set_all_Empty by blast

lemma placeDigit_twice_on:
  assumes g: "in_grid sel"
    and h1: "\<forall>(r, c)\<in>set sel. \<not> isGiven puz r c \<longrightarrow> cell_at b r c = Some (Digit d)"
    and h2: "marks_clear puz b sel d"
  shows "placeDigit puz (placeDigit puz b sel d) sel d = b"
proof -
  have keep: "set_all puz (Digit d) sel b = b"
    by (rule set_all_unchanged) (use h1 in auto)
  show ?thesis
  proof (cases "numberExistsInAll b sel d")
    case False
    then have "placeDigit puz b sel d = b"
      using fold_place_step_set_all[OF g h2] keep by (simp add: placeDigit_cases)
    then show ?thesis by simp
  next
    case True
    let ?b1 = "set_all puz Empty sel b"
    have p1: "placeDigit puz b sel d = ?b1" using True by (simp add: placeDigit_cases)
    have mc: "marks_clear puz ?b1 sel d" using h2 by (rule marks_clear_set_all_Empty)
    show ?thesis
    proof (cases "numberExistsInAll ?b1 sel d")
      case False
      then have "placeDigit puz ?b1 sel d = set_all puz (Digit d) sel ?b1"
        using fold_place_step_set_all[OF g mc] by (simp add: placeDigit_cases)
      moreover have "set_all puz (Digit d) sel ?b1 = b"
      proof (rule board_eqI)
        show "shape (set_all puz (Digit d) sel ?b1) = shape b" by (simp add: shape_set_all)
        fix r c
        show "cell_at (set_all puz (Digit d) sel ?b1) r c = cell_at b r c"
          using h1 by (auto simp: cell_at_set_all split: if_splits)
      qed
      ultimately show ?thesis using p1 by simp
    next
      case yes: True
      have none: "isGiven puz r c" if "(r, c) \<in> set sel" for r c
      proof (rule ccontr)
        assume ng: "\<not> isGiven puz r c"
        then have "cell_at b r c = Some (Digit d)" using h1 that by auto
        then have "cell_at ?b1 r c = Some Empty" using that ng by (simp add: cell_at_set_all)
        moreover have "cell_at ?b1 r c = Some (Digit d)"
          using yes that unfolding numberExistsInAll_iff by auto
        ultimately show False by simp
      qed
      have e1: "?b1 = b" by (rule set_all_unchanged) (use none in auto)
      have "placeDigit puz ?b1 sel d = set_all puz Empty sel ?b1"
        using yes by (simp add: placeDigit_cases)
      then show ?thesis using p1 e1 by simp
    qed
  qed
qed

text \<open>
  Conversely, on a well-formed board the two conditions are necessary: if the second
  placement restores the board, then nothing was pruned and the selected cells that are
  not given were all Empty or all held the digit.
\<close>

lemma has_mark_place_step:
  assumes "r' < 9" "c' < 9" "has_mark d (cell_at (place_step puz d (r', c') nb) r c)"
  shows "has_mark d (cell_at nb r c)"
proof (cases "isGiven puz r' c'")
  case True
  then show ?thesis using assms(3) by (simp add: place_step_def)
next
  case False
  let ?b = "set_cell nb r' c' (Digit d)"
  have "has_mark d (cell_at (removeCandidates ?b r' c' d) r c)"
    using assms(3) False by (simp add: place_step_def)
  then have "has_mark d (cell_at ?b r c)"
    unfolding cell_at_removeCandidates[OF assms(1,2)]
    by (cases "(d, cell_at ?b r c)" rule: has_mark.cases) (auto split: if_splits)
  then show ?thesis by (rule has_mark_set_cell_Digit)
qed

lemma no_mark_place_step:
  assumes "r' < 9" "c' < 9" "\<not> isGiven puz r' c'" "r < 9" "c < 9" "same_unit r' c' r c"
  shows "\<not> has_mark d (cell_at (place_step puz d (r', c') nb) r c)"
proof -
  let ?b = "set_cell nb r' c' (Digit d)"
  have "cell_at (place_step puz d (r', c') nb) r c = map_option (pruned d) (cell_at ?b r c)"
    using assms by (simp add: place_step_def cell_at_removeCandidates)
  then show ?thesis
    by (cases "(d, cell_at ?b r c)" rule: has_mark.cases) auto
qed

lemma has_mark_fold_place_step:
  assumes "in_grid sel" "has_mark d (cell_at (fold (place_step puz d) sel b) r c)"
  shows "has_mark d (cell_at b r c)"
  using assms
proof (induction sel arbitrary: b)
  case Nil
  then show ?case by simp
next
  case (Cons x sel)
  obtain r' c' where x: "x = (r', c')" by (cases x)
  have rc: "r' < 9" "c' < 9" and g: "in_grid sel" using Cons.prems(1) by (simp_all add: x in_grid_Cons)
  have "has_mark d (cell_at (place_step puz d (r', c') b) r c)"
    using Cons.IH[OF g] Cons.prems(2) by (simp add: x)
  with rc show ?case by (rule has_mark_place_step)
qed

lemma no_mark_fold_place_step:
  assumes "in_grid sel" "(r', c') \<in> set sel" "\<not> isGiven puz r' c'"
    and "r < 9" "c < 9" "same_unit r' c' r c"
  shows "\<not> has_mark d (cell_at (fold (place_step puz d) sel b) r c)"
  using assms(1,2)
proof (induction sel arbitrary: b)
  case Nil
  then show ?case by simp
next
  case (Cons x sel)
  obtain r0 c0 where x: "x = (r0, c0)" by (cases x)
  have rc: "r0 < 9" "c0 < 9" and g: "in_grid sel" using Cons.prems(1) by (simp_all add: x in_grid_Cons)
  show ?case
  proof (cases "(r', c') \<in> set sel")
    case True
    from Cons.IH[OF g True] show ?thesis by (simp add: x)
  next
    case False
    then have e: "r0 = r'" "c0 = c'" using Cons.prems(2) by (simp_all add: x)
    have "\<not> has_mark d (cell_at (place_step puz d (r0, c0) b) r c)"
      unfolding e using rc assms(3-6) unfolding e by (rule no_mark_place_step)
    then show ?thesis using has_mark_fold_place_step[OF g] by (auto simp: x)
  qed
qed

lemma has_mark_set_all:
  "\<not> has_mark d (Some v) \<Longrightarrow> has_mark d (cell_at (set_all puz v sel' b) r c)
   \<Longrightarrow> has_mark d (cell_at b r c)"
  by (auto simp: cell_at_set_all split: if_splits)

lemma marks_clear_set_all:
  "\<not> has_mark d (Some v) \<Longrightarrow> marks_clear puz b sel d \<Longrightarrow> marks_clear puz (set_all puz v sel' b) sel d"
  unfolding marks_clear_def using has_mark_set_all by blast

lemma placeDigit_twice_marks_clear:
  assumes wf: "wf_board b" and g: "in_grid sel"
    and R: "placeDigit puz (placeDigit puz b sel d) sel d = b"
  shows "marks_clear puz b sel d"
  unfolding marks_clear_def
proof (intro ballI, clarify)
  fix r0 c0 r c
  assume m: "(r0, c0) \<in> set sel" and ng: "\<not> isGiven puz r0 c0"
    and rc: "r < 9" "c < 9" and u: "same_unit r0 c0 r c"
    and hm: "has_mark d (cell_at b r c)"
  let ?b1 = "placeDigit puz b sel d"
  have rc0: "r0 < 9" "c0 < 9" using in_gridD[OF g m] by simp_all
  have nf: "\<not> has_mark d (cell_at (fold (place_step puz d) sel x) r c)" for x
    using g m ng rc u by (rule no_mark_fold_place_step)
  have ne2: "numberExistsInAll ?b1 sel d"
  proof (rule ccontr)
    assume "\<not> numberExistsInAll ?b1 sel d"
    then have "placeDigit puz ?b1 sel d = fold (place_step puz d) sel ?b1"
      by (simp add: placeDigit_cases)
    then show False using nf[of ?b1] hm R by simp
  qed
  then have "placeDigit puz ?b1 sel d = set_all puz Empty sel ?b1" by (simp add: placeDigit_cases)
  then have "has_mark d (cell_at (set_all puz Empty sel ?b1) r c)" using hm R by simp
  then have hm1: "has_mark d (cell_at ?b1 r c)" by (rule has_mark_set_all_Empty)
  have ne1: "numberExistsInAll b sel d"
  proof (rule ccontr)
    assume "\<not> numberExistsInAll b sel d"
    then have "?b1 = fold (place_step puz d) sel b" by (simp add: placeDigit_cases)
    then show False using nf[of b] hm1 by simp
  qed
  then have b1: "?b1 = set_all puz Empty sel b" by (simp add: placeDigit_cases)
  have "cell_at b r0 c0 \<noteq> None" using wf_board_cell_at[OF wf rc0] by simp
  then have "cell_at ?b1 r0 c0 = Some Empty" using m ng by (simp add: b1 cell_at_set_all)
  moreover have "cell_at ?b1 r0 c0 = Some (Digit d)"
    using ne2 m unfolding numberExistsInAll_iff by auto
  ultimately show False by simp
qed

lemma placeDigit_twice_only_if:
  assumes wf: "wf_board b" and g: "in_grid sel"
    and R: "placeDigit puz (placeDigit puz b sel d) sel d = b"
  shows "((\<forall>(r, c)\<in>set sel. if isGiven puz r c then cell_at b r c = Some (Digit d)
                              else cell_at b r c = Some Empty)
          \<or> (\<forall>(r, c)\<in>set sel. \<not> isGiven puz r c \<longrightarrow> cell_at b r c = Some (Digit d)))
         \<and> marks_clear puz b sel d"
proof -
  let ?b1 = "placeDigit puz b sel d"
  have mc: "marks_clear puz b sel d" using wf g R by (rule placeDigit_twice_marks_clear)
  have ex: "cell_at b r c \<noteq> None" if "(r, c) \<in> set sel" for r c
    using wf_board_cell_at[OF wf] in_gridD[OF g that] by simp
  have a: "(\<forall>(r, c)\<in>set sel. if isGiven puz r c then cell_at b r c = Some (Digit d)
                              else cell_at b r c = Some Empty)
          \<or> (\<forall>(r, c)\<in>set sel. \<not> isGiven puz r c \<longrightarrow> cell_at b r c = Some (Digit d))"
  proof (cases "numberExistsInAll b sel d")
    case True
    then show ?thesis unfolding numberExistsInAll_iff by auto
  next
    case False
    then have b1: "?b1 = set_all puz (Digit d) sel b"
      using fold_place_step_set_all[OF g mc] by (simp add: placeDigit_cases)
    have mc1: "marks_clear puz ?b1 sel d"
      unfolding b1 using mc by (intro marks_clear_set_all) simp_all
    show ?thesis
    proof (cases "numberExistsInAll ?b1 sel d")
      case yes: True
      then have "set_all puz Empty sel ?b1 = b" using R by (simp add: placeDigit_cases)
      then have e: "cell_at b r c = cell_at (set_all puz Empty sel (set_all puz (Digit d) sel b)) r c"
        for r c using b1 by simp
      have "if isGiven puz r c then cell_at b r c = Some (Digit d) else cell_at b r c = Some Empty"
        if m: "(r, c) \<in> set sel" for r c
      proof (cases "isGiven puz r c")
        case True
        have "cell_at ?b1 r c = Some (Digit d)" using yes m unfolding numberExistsInAll_iff by auto
        then show ?thesis using True by (simp add: b1 cell_at_set_all)
      next
        case False
        have "cell_at b r c = Some Empty"
          using ex[OF m] m False by (subst e) (simp add: cell_at_set_all)
        then show ?thesis using False by simp
      qed
      then show ?thesis by auto
    next
      case no: False
      then have "set_all puz (Digit d) sel ?b1 = b"
        using R fold_place_step_set_all[OF g mc1] by (simp add: placeDigit_cases)
      then have e: "cell_at b r c = cell_at (set_all puz (Digit d) sel (set_all puz (Digit d) sel b)) r c"
        for r c using b1 by simp
      have "cell_at b r c = Some (Digit d)" if m: "(r, c) \<in> set sel" "\<not> isGiven puz r c" for r c
        using ex[OF m(1)] m by (subst e) (simp add: cell_at_set_all)
      then show ?thesis by auto
    qed
  qed
  show ?thesis using a mc by simp
qed

lemma placeDigit_single:
  assumes "r < 9" "c < 9" "\<not> isGiven puz r c" "marks_clear puz b [(r, c)] d"
  shows "placeDigit puz b [(r, c)] d =
         set_cell b r c (if cell_at b r c = Some (Digit d) then Empty else Digit d)"
proof -
  have "in_grid [(r, c)]" using assms(1,2) by (simp add: in_grid_def)
  from fold_place_step_set_all[OF this assms(4)] show ?thesis
    using assms(3) by (simp add: placeDigit_cases numberExistsInAll_def set_all_def)
qed

lemma example_puzzle_no_mark: "r < 9 \<Longrightarrow> c < 9 \<Longrightarrow> \<not> has_mark d (cell_at example_puzzle r c)"
  using example_puzzle_no_marks[of r c]
  by (cases "(d, cell_at example_puzzle r c)" rule: has_mark.cases) auto

lemma marks_clear_example_puzzle: "marks_clear puz example_puzzle sel d"
  by (simp add: marks_clear_def example_puzzle_no_mark split: prod.splits)

subsection \<open>Given cells during a session\<close>

text \<open>A puzzle as dealt: a well-formed board without pencil marks.\<close>

definition puzzle_ok :: "board \<Rightarrow> bool" where
  "puzzle_ok puz \<longleftrightarrow>
     wf_board puz \<and>
     list_all (\<lambda>(r, c). case cell_at puz r c of Some (Candidates s) \<Rightarrow> False | _ \<Rightarrow> True) all_coords"

text \<open>The board has the puzzle's shape and agrees with it on every given cell.\<close>

definition givens_kept :: "board \<Rightarrow> board \<Rightarrow> bool" where
  "givens_kept puz b \<longleftrightarrow>
     shape b = shape puz \<and>
     (\<forall>r<9. \<forall>c<9. isGiven puz r c \<longrightarrow> cell_at b r c = cell_at puz r c)"

lemma puzzle_ok_given_digit:
  assumes "puzzle_ok puz" "r < 9" "c < 9" "isGiven puz r c"
  shows "\<exists>x. cell_at puz r c = Some (Digit x)"
proof -
  have "(r, c) \<in> set all_coords" using assms(2,3) by (simp add: set_all_coords)
  then have nc: "case cell_at puz r c of Some (Candidates s) \<Rightarrow> False | _ \<Rightarrow> True"
    using assms(1) unfolding puzzle_ok_def list_all_iff by auto
  obtain y where y: "cell_at puz r c = Some y"
    using assms(1,2,3) wf_board_cell_at[of puz r c] by (auto simp: puzzle_ok_def)
  show ?thesis using nc y assms(4) by (cases y) (auto simp: isGiven_def)
qed

lemma fold_invariant:
  assumes "\<And>x b. x \<in> set xs \<Longrightarrow> Q b \<Longrightarrow> Q (f x b)" and "Q b"
  shows "Q (fold f xs b)"
  using assms by (induction xs arbitrary: b) auto

lemma givens_kept_refl: "givens_kept puz puz"
  by (simp add: givens_kept_def)

lemma givens_kept_set_cell:
  assumes "givens_kept puz b" "\<not> isGiven puz r c"
  shows "givens_kept puz (set_cell b r c v)"
  using assms unfolding givens_kept_def
  by (auto simp: shape_set_cell cell_at_set_cell_iff)

lemma givens_kept_clearCells: "givens_kept puz b \<Longrightarrow> givens_kept puz (clearCells puz b sel)"
  unfolding clearCells_def
  by (rule fold_invariant) (auto simp: givens_kept_set_cell)

lemma givens_kept_toggleCandidate:
  "givens_kept puz b \<Longrightarrow> givens_kept puz (toggleCandidate puz b sel d)"
  unfolding toggleCandidate_def Let_def
  by (rule fold_invariant) (auto simp: givens_kept_set_cell)

lemma givens_kept_place_step:
  assumes "puzzle_ok puz" "givens_kept puz b" "r < 9" "c < 9"
  shows "givens_kept puz (place_step puz d (r, c) b)"
proof (cases "isGiven puz r c")
  case True
  then show ?thesis using assms(2) by (simp add: place_step_def)
next
  case False
  let ?b = "set_cell b r c (Digit d)"
  have k: "givens_kept puz ?b" using assms(2) False by (rule givens_kept_set_cell)
  have "cell_at (removeCandidates ?b r c d) r' c' = cell_at puz r' c'"
    if h: "r' < 9" "c' < 9" "isGiven puz r' c'" for r' c'
  proof -
    obtain x where x: "cell_at puz r' c' = Some (Digit x)"
      using puzzle_ok_given_digit[OF assms(1) h] by blast
    then have "cell_at ?b r' c' = Some (Digit x)"
      using k h unfolding givens_kept_def by simp
    then show ?thesis using x by (simp add: cell_at_removeCandidates[OF assms(3,4)])
  qed
  moreover have "shape (removeCandidates ?b r c d) = shape puz"
    using k assms(3,4) by (simp add: shape_removeCandidates givens_kept_def)
  ultimately show ?thesis using False by (simp add: givens_kept_def place_step_def)
qed

lemma givens_kept_placeDigit:
  assumes "puzzle_ok puz" "givens_kept puz b" "in_grid sel"
  shows "givens_kept puz (placeDigit puz b sel d)"
proof (cases "numberExistsInAll b sel d")
  case True
  then show ?thesis
    using givens_kept_clearCells[OF assms(2), of sel]
    by (simp add: placeDigit_cases clearCells_set_all)
next
  case False
  have "givens_kept puz (fold (place_step puz d) sel b)"
  proof (rule fold_invariant[where Q = "givens_kept puz"])
    fix x nb assume "x \<in> set sel" "givens_kept puz nb"
    then show "givens_kept puz (place_step puz d x nb)"
      using givens_kept_place_step[OF assms(1), of nb "fst x" "snd x" d] in_gridD[OF assms(3), of "fst x" "snd x"]
      by simp
  qed (rule assms(2))
  then show ?thesis using False by (simp add: placeDigit_cases)
qed

text \<open>What every state of a session satisfies.\<close>

definition session_inv :: "board \<Rightarrow> game \<Rightarrow> bool" where
  "session_inv puz g \<longleftrightarrow>
     puzzle g = puz \<and> givens_kept puz (board g) \<and> in_grid (selectedCells g)"

lemma session_inv_onBoardKeyDown:
  assumes "puzzle_ok puz" "session_inv puz g"
  shows "session_inv puz (onBoardKeyDown g e)"
proof -
  have p: "puzzle g = puz" and k: "givens_kept puz (board g)" and s: "in_grid (selectedCells g)"
    using assms(2) by (simp_all add: session_inv_def)
  have 1: "givens_kept puz (clearCells puz (board g) (selectedCells g))"
    using k by (rule givens_kept_clearCells)
  have 2: "givens_kept puz (toggleCandidate puz (board g) (selectedCells g) d)" for d
    using k by (rule givens_kept_toggleCandidate)
  have 3: "givens_kept puz (placeDigit puz (board g) (selectedCells g) d)" for d
    using assms(1) k s by (rule givens_kept_placeDigit)
  have 4: "in_grid []" by (simp add: in_grid_def)
  show ?thesis
    unfolding onBoardKeyDown_def Let_def cloneBoard_id
    using assms(2) p s 1 2 3 4
    by (auto simp: session_inv_def split: option.splits)
qed

lemma session_inv_step:
  assumes "puzzle_ok puz" "session_inv puz g"
  shows "session_inv puz (step g a)"
proof (cases a)
  case (KeyDown e)
  then show ?thesis using session_inv_onBoardKeyDown[OF assms] by simp
next
  case (Select sel)
  then show ?thesis using assms(2) by (simp add: session_inv_def in_grid_def)
next
  case TogglePencil
  then show ?thesis using assms(2) by (simp add: session_inv_def)
qed

lemma session_inv_run:
  assumes "puzzle_ok puz" "session_inv puz g"
  shows "session_inv puz (run g acts)"
  using assms(2) unfolding run_def
  by (induction acts arbitrary: g) (simp_all add: session_inv_step[OF assms(1)])

lemma session_inv_initial: "session_inv puz (initial puz sol)"
  by (simp add: session_inv_def initial_def cloneBoard_id givens_kept_refl in_grid_def)

text \<open>
  Claim C8: in every state reached from the initial state by key presses, selections and
  pencil-mode switches, every cell that is given in the puzzle holds the puzzle's digit.
\<close>

theorem givens_immutable:
  assumes "puzzle_ok puz" "r < 9" "c < 9" "isGiven puz r c"
  shows "cell_at (board (run (initial puz sol) acts)) r c = cell_at puz r c"
  using session_inv_run[OF assms(1) session_inv_initial, of sol acts] assms(2,3,4)
  by (simp add: session_inv_def givens_kept_def)

lemma puzzle_ok_example: "puzzle_ok example_puzzle"
proof -
  have "case cell_at example_puzzle r c of Some (Candidates s) \<Rightarrow> False | _ \<Rightarrow> True"
    if "r < 9" "c < 9" for r c
    using example_puzzle_no_marks[OF that] by (auto split: option.splits cell.splits)
  then show ?thesis
    by (auto simp: puzzle_ok_def wf_example_puzzle list_all_iff set_all_coords)
qed

theorem givens_immutable_witness:
  "puzzle_ok example_puzzle \<and> isGiven example_puzzle 0 0
   \<and> cell_at (board (run (initial example_puzzle example_solution)
        [Select [(0, 0), (0, 6)], KeyDown \<lparr>key = ''5'', ctrlKey = False, metaKey = False\<rparr>,
         KeyDown \<lparr>key = ''Delete'', ctrlKey = False, metaKey = False\<rparr>])) 0 0 = Some (Digit 8)"
proof -
  have g: "isGiven example_puzzle 0 0" by (simp add: isGiven_def example_puzzle_cells)
  show ?thesis
    using givens_immutable[OF puzzle_ok_example _ _ g, of example_solution] puzzle_ok_example g
    by (simp add: example_puzzle_cells)
qed

subsection \<open>Pencil marks emptied by a placement\<close>

lemma not_completed:
  assumes "r < 9" "c < 9" "\<not> strict_eq (cell_at b r c) (cell_at sol r c)"
  shows "\<not> isPuzzleCompleted sol b"
proof -
  have "(r, c) \<in> set all_coords" using assms(1,2) by (simp add: set_all_coords)
  then show ?thesis using assms(3) unfolding isPuzzleCompleted_def list_all_iff by auto
qed

text \<open>The marked example board after the player has then placed 5 at the free cell (8,0)
  of the same row.\<close>

definition example_placed :: board where
  "example_placed = removeCandidates (set_cell example_marked 8 0 (Digit 5)) 8 0 5"

lemma toggleCandidate_example:
  "toggleCandidate example_puzzle example_puzzle [(8, 2)] 5 = example_marked"
  by (simp add: toggleCandidate_def pencilMarkExistsInAll_def isGiven_def example_puzzle_cells
      example_marked_def)

lemma placeDigit_example:
  "placeDigit example_puzzle example_marked [(8, 0)] 5 = example_placed"
proof -
  have "\<not> numberExistsInAll example_marked [(8, 0)] 5"
    by (simp add: numberExistsInAll_def cell_at_example_marked example_puzzle_cells)
  then show ?thesis
    by (simp add: placeDigit_cases place_step_def isGiven_def example_puzzle_cells example_placed_def)
qed

lemma cell_at_example_placed:
  "cell_at example_placed 8 2 = Some (Candidates {})"
  "cell_at example_placed 8 8 = Some Empty"
  by (simp_all add: example_placed_def cell_at_removeCandidates cell_at_set_cell_iff
      cell_at_example_marked example_puzzle_cells same_unit_def)

lemma example_solution_cell: "cell_at example_solution 8 8 = Some (Digit 6)"
  by (simp add: example_solution_def cell_at_def)

text \<open>
  Claim C4 fails on the code.  The session: select (8,2), switch pencil mode on, press 5,
  switch pencil mode off, select (8,0), press 5.  The digit branch deletes 5 from the
  marks of (8,2) through \<^verbatim>\<open>removeCandidates\<close>, which never replaces an emptied set by
  \<^verbatim>\<open>null\<close>: the cell is left holding an empty collection of pencil marks.
\<close>

theorem placement_leaves_empty_marks:
  "cell_at (board (run (initial example_puzzle example_solution)
      [Select [(8, 2)], TogglePencil,
       KeyDown \<lparr>key = ''5'', ctrlKey = False, metaKey = False\<rparr>,
       TogglePencil, Select [(8, 0)],
       KeyDown \<lparr>key = ''5'', ctrlKey = False, metaKey = False\<rparr>])) 8 2
   = Some (Candidates {})"
proof -
  have p5: "parseInt ''5'' = Some 5"
    by (simp add: parseInt_def is_space_def is_dec_def dec_value_def)
  have n1: "\<not> isPuzzleCompleted example_solution example_marked"
    by (rule not_completed[of 8 8])
      (simp_all add: cell_at_example_marked example_puzzle_cells example_solution_cell)
  have n2: "\<not> isPuzzleCompleted example_solution example_placed"
    by (rule not_completed[of 8 8])
      (simp_all add: cell_at_example_placed example_solution_cell)
  show ?thesis
    by (simp add: run_def initial_def onBoardKeyDown_def cloneBoard_id p5
        toggleCandidate_example placeDigit_example n1 n2 cell_at_example_placed)
qed

subsection \<open>Pressing the same digit key twice\<close>

text \<open>A key press without modifier keys.\<close>

definition plain_key :: "string \<Rightarrow> key_event" where
  "plain_key k = \<lparr>key = k, ctrlKey = False, metaKey = False\<rparr>"

text \<open>The example puzzle after the player has placed 7 at the free cell (0,6).\<close>

definition example_seven :: board where
  "example_seven = set_cell example_puzzle 0 6 (Digit 7)"

lemma parseInt_digit_keys:
  "parseInt ''5'' = Some 5" "parseInt ''7'' = Some 7" "parseInt ''8'' = Some 8"
  by (simp_all add: parseInt_def is_space_def is_dec_def dec_value_def)

lemma parseInt_control_keys: "parseInt ''Backspace'' = None" "parseInt ''Delete'' = None"
  by (simp_all add: parseInt_def is_space_def is_dec_def)

text \<open>The digit branch of the handler, pencil input off.\<close>

lemma onBoardKeyDown_place:
  assumes "\<not> completed g" "selectedCells g \<noteq> []" "parseInt (key e) = Some d" "1 \<le> d" "d \<le> 9"
    "\<not> pencilMode g" "\<not> ctrlKey e" "\<not> metaKey e"
  shows "onBoardKeyDown g e =
    (if isPuzzleCompleted (solution g) (placeDigit (puzzle g) (board g) (selectedCells g) d)
     then g\<lparr>board := placeDigit (puzzle g) (board g) (selectedCells g) d,
            highlightNum := None, completed := True, selectedCells := []\<rparr>
     else g\<lparr>board := placeDigit (puzzle g) (board g) (selectedCells g) d,
            highlightNum := Some d\<rparr>)"
proof -
  have k: "key e \<noteq> ''Backspace''" "key e \<noteq> ''Delete''"
    using assms(3) parseInt_control_keys by auto
  show ?thesis
    using assms k by (simp add: onBoardKeyDown_def Let_def cloneBoard_id)
qed

lemma wf_example_seven: "wf_board example_seven"
  by (simp add: example_seven_def wf_set_cell wf_example_puzzle)

lemma cell_at_example_seven:
  "cell_at example_seven r c = (if r = 0 \<and> c = 6 then Some (Digit 7) else cell_at example_puzzle r c)"
  by (simp add: example_seven_def cell_at_set_cell_iff example_puzzle_cells)

lemma free_0_6: "\<not> isGiven example_puzzle 0 6"
  by (simp add: isGiven_def example_puzzle_cells)

lemma placeDigit_example_5: "placeDigit example_puzzle example_puzzle [(0, 6)] 5 = example_board"
  using placeDigit_single[OF _ _ free_0_6 marks_clear_example_puzzle, of 5]
  by (simp add: example_puzzle_cells example_board_def)

lemma placeDigit_example_7: "placeDigit example_puzzle example_board [(0, 6)] 7 = example_seven"
proof -
  have "marks_clear example_puzzle example_board [(0, 6)] 7"
    unfolding example_board_def by (rule marks_clear_set_cell) (rule marks_clear_example_puzzle)
  from placeDigit_single[OF _ _ free_0_6 this] show ?thesis
    by (simp add: cell_at_example_board) (simp add: example_board_def example_seven_def set_cell_twice)
qed

lemma placeDigit_example_7_again: "placeDigit example_puzzle example_seven [(0, 6)] 7 = example_puzzle"
proof -
  have "marks_clear example_puzzle example_seven [(0, 6)] 7"
    unfolding example_seven_def by (rule marks_clear_set_cell) (rule marks_clear_example_puzzle)
  from placeDigit_single[OF _ _ free_0_6 this] show ?thesis
    by (simp add: cell_at_example_seven)
      (simp add: example_seven_def set_cell_twice set_cell_same example_puzzle_cells)
qed

lemma placeDigit_example_5_again: "placeDigit example_puzzle example_board [(0, 6)] 5 = example_puzzle"
proof -
  have "marks_clear example_puzzle example_board [(0, 6)] 5"
    unfolding example_board_def by (rule marks_clear_set_cell) (rule marks_clear_example_puzzle)
  from placeDigit_single[OF _ _ free_0_6 this] show ?thesis
    by (simp add: cell_at_example_board)
      (simp add: example_board_def set_cell_twice set_cell_same example_puzzle_cells)
qed

lemma example_not_completed:
  "\<not> isPuzzleCompleted example_solution example_puzzle"
  "\<not> isPuzzleCompleted example_solution example_board"
  "\<not> isPuzzleCompleted example_solution example_seven"
  by (rule not_completed[of 8 8];
      simp add: cell_at_example_board cell_at_example_seven example_puzzle_cells example_solution_cell)+

text \<open>
  Claim C5 as stated fails: a second press empties the selected cells, whatever they held
  before the first press.  The session: select the free cell (0,6) and press 5; the cell
  holds 5.  Pressing 7 twice from there leaves the cell Empty.
\<close>

theorem place_digit_twice_counterexample:
  "cell_at (board (run (initial example_puzzle example_solution)
      [Select [(0, 6)], KeyDown (plain_key ''5'')])) 0 6 = Some (Digit 5)
   \<and> cell_at (board (run (initial example_puzzle example_solution)
      [Select [(0, 6)], KeyDown (plain_key ''5''),
       KeyDown (plain_key ''7''), KeyDown (plain_key ''7'')])) 0 6 = Some Empty"
  by (simp add: run_def initial_def plain_key_def onBoardKeyDown_def cloneBoard_id
      parseInt_digit_keys placeDigit_example_5 placeDigit_example_7 placeDigit_example_7_again
      example_not_completed cell_at_example_board example_puzzle_cells)

text \<open>
  Claim C5, amended.  Let the selected cells be cells of the grid, let \<open>d\<close> be the digit of a
  key pressed with pencil input off, and let

    \<^item> either every selected cell that is not given be Empty and every selected given cell
      hold \<open>d\<close>, or every selected cell that is not given hold \<open>d\<close>;

    \<^item> no cell that shares a row, column or box with a selected cell that is not given
      hold \<open>d\<close> among its pencil marks;

    \<^item> the first placement not complete the puzzle (a completed game ignores every
      later key).

  Then pressing the key twice, that is calling \<^verbatim>\<open>place_digit\<close> twice with this selection and
  \<open>d\<close>, leaves the board as it was before the first press.
\<close>

theorem place_digit_twice_restores:
  assumes "in_grid (selectedCells g)"
    and "parseInt (key e) = Some d" "1 \<le> d" "d \<le> 9"
    and "\<not> pencilMode g" "\<not> ctrlKey e" "\<not> metaKey e"
    and "(\<forall>(r, c)\<in>set (selectedCells g).
            if isGiven (puzzle g) r c then cell_at (board g) r c = Some (Digit d)
            else cell_at (board g) r c = Some Empty)
         \<or> (\<forall>(r, c)\<in>set (selectedCells g).
            \<not> isGiven (puzzle g) r c \<longrightarrow> cell_at (board g) r c = Some (Digit d))"
    and "\<forall>(r, c)\<in>set (selectedCells g). \<not> isGiven (puzzle g) r c \<longrightarrow>
           (\<forall>r'<9. \<forall>c'<9. same_unit r c r' c' \<longrightarrow> \<not> has_mark d (cell_at (board g) r' c'))"
    and "\<not> isPuzzleCompleted (solution g)
             (placeDigit (puzzle g) (board g) (selectedCells g) d)"
  shows "board (onBoardKeyDown (onBoardKeyDown g e) e) = board g"
proof (cases "completed g \<or> selectedCells g = []")
  case True
  then have "onBoardKeyDown g e = g" by (auto simp: onBoardKeyDown_def Let_def)
  then show ?thesis by simp
next
  case False
  let ?sel = "selectedCells g"
  let ?nb = "placeDigit (puzzle g) (board g) ?sel d"
  let ?g1 = "g\<lparr>board := ?nb, highlightNum := Some d\<rparr>"
  have mc: "marks_clear (puzzle g) (board g) ?sel d"
    using assms(9) by (simp add: marks_clear_def)
  have twice: "placeDigit (puzzle g) ?nb ?sel d = board g"
    using assms(8)
  proof
    assume "\<forall>(r, c)\<in>set ?sel. if isGiven (puzzle g) r c then cell_at (board g) r c = Some (Digit d)
                         else cell_at (board g) r c = Some Empty"
    with assms(1) show ?thesis using mc by (rule placeDigit_twice)
  next
    assume "\<forall>(r, c)\<in>set ?sel. \<not> isGiven (puzzle g) r c \<longrightarrow> cell_at (board g) r c = Some (Digit d)"
    with assms(1) show ?thesis using mc by (rule placeDigit_twice_on)
  qed
  have first: "onBoardKeyDown g e = ?g1"
    using onBoardKeyDown_place[of g e d] False assms(2-7,10) by simp
  have "board (onBoardKeyDown ?g1 e) = placeDigit (puzzle g) ?nb ?sel d"
    using onBoardKeyDown_place[of ?g1 e d] False assms(2-7) by simp
  then show ?thesis using first twice by simp
qed

theorem place_digit_twice_restores_witness:
  "in_grid [(0, 0), (0, 6)] \<and> parseInt ''8'' = Some 8
   \<and> board (run (initial example_puzzle example_solution)
        [Select [(0, 0), (0, 6)]]) = example_puzzle
   \<and> cell_at (board (run (initial example_puzzle example_solution)
        [Select [(0, 0), (0, 6)], KeyDown (plain_key ''8'')])) 0 6 = Some (Digit 8)
   \<and> board (run (initial example_puzzle example_solution)
        [Select [(0, 0), (0, 6)], KeyDown (plain_key ''8''), KeyDown (plain_key ''8'')])
       = example_puzzle
   \<and> board (run (initial example_puzzle example_solution)
        [Select [(0, 6)], KeyDown (plain_key ''5'')]) = example_board
   \<and> board (run (initial example_puzzle example_solution)
        [Select [(0, 6)], KeyDown (plain_key ''5''), KeyDown (plain_key ''5'')]) = example_puzzle
   \<and> board (run (initial example_puzzle example_solution)
        [Select [(0, 6)], KeyDown (plain_key ''5''), KeyDown (plain_key ''5''),
         KeyDown (plain_key ''5'')]) = example_board"
proof -
  let ?P = example_puzzle and ?S = example_solution
  let ?sel = "[(0, 0), (0, 6)] :: coords list"
  define g where "g = run (initial ?P ?S) [Select ?sel]"
  define h where "h = run (initial ?P ?S) [Select [(0, 6)], KeyDown (plain_key ''5'')]"
  have g: "g = \<lparr>puzzle = ?P, solution = ?S, board = ?P, pencilMode = False,
                 selectedCells = ?sel, highlightNum = None, completed = False\<rparr>"
    by (simp add: g_def run_def initial_def cloneBoard_id)
  have h: "h = \<lparr>puzzle = ?P, solution = ?S, board = example_board, pencilMode = False,
                 selectedCells = [(0, 6)], highlightNum = Some 5, completed = False\<rparr>"
    by (simp add: h_def run_def initial_def cloneBoard_id plain_key_def onBoardKeyDown_def
        parseInt_digit_keys placeDigit_example_5 example_not_completed)
  have i: "in_grid ?sel" by (simp add: in_grid_def)
  have gv: "isGiven ?P 0 0" by (simp add: isGiven_def example_puzzle_cells)
  have p1: "placeDigit ?P ?P ?sel 8 = set_all ?P (Digit 8) ?sel ?P"
  proof -
    have "\<not> numberExistsInAll ?P ?sel 8"
      by (simp add: numberExistsInAll_def example_puzzle_cells)
    then show ?thesis
      using fold_place_step_set_all[OF i marks_clear_example_puzzle] by (simp add: placeDigit_cases)
  qed
  have c1: "cell_at (placeDigit ?P ?P ?sel 8) 0 6 = Some (Digit 8)"
    "cell_at (placeDigit ?P ?P ?sel 8) 8 8 = Some Empty"
    unfolding p1 using free_0_6 by (simp_all add: cell_at_set_all example_puzzle_cells)
  have n1: "\<not> isPuzzleCompleted ?S (placeDigit ?P ?P ?sel 8)"
    by (rule not_completed[of 8 8]) (simp_all add: c1 example_solution_cell)
  have first: "onBoardKeyDown g (plain_key ''8'') = g\<lparr>board := placeDigit ?P ?P ?sel 8, highlightNum := Some 8\<rparr>"
    using onBoardKeyDown_place[of g "plain_key ''8''" 8] n1
    by (simp add: g plain_key_def parseInt_digit_keys)
  have a: "board (onBoardKeyDown (onBoardKeyDown g (plain_key ''8'')) (plain_key ''8'')) = board g"
  proof (rule place_digit_twice_restores[of g "plain_key ''8''" 8])
    show "in_grid (selectedCells g)" using i by (simp add: g)
    show "parseInt (key (plain_key ''8'')) = Some 8" by (simp add: plain_key_def parseInt_digit_keys)
    show "\<not> pencilMode g" by (simp add: g)
    show "\<not> ctrlKey (plain_key ''8'')" "\<not> metaKey (plain_key ''8'')" by (simp_all add: plain_key_def)
    show "(\<forall>(r, c)\<in>set (selectedCells g).
            if isGiven (puzzle g) r c then cell_at (board g) r c = Some (Digit 8)
            else cell_at (board g) r c = Some Empty)
         \<or> (\<forall>(r, c)\<in>set (selectedCells g).
            \<not> isGiven (puzzle g) r c \<longrightarrow> cell_at (board g) r c = Some (Digit 8))"
      using gv free_0_6 by (simp add: g example_puzzle_cells)
    show "\<forall>(r, c)\<in>set (selectedCells g). \<not> isGiven (puzzle g) r c \<longrightarrow>
           (\<forall>r'<9. \<forall>c'<9. same_unit r c r' c' \<longrightarrow> \<not> has_mark 8 (cell_at (board g) r' c'))"
      by (simp add: g example_puzzle_no_mark)
    show "\<not> isPuzzleCompleted (solution g) (placeDigit (puzzle g) (board g) (selectedCells g) 8)"
      using n1 by (simp add: g)
  qed simp_all
  have n2: "\<not> isPuzzleCompleted ?S (placeDigit ?P example_board [(0, 6)] 5)"
    by (simp add: placeDigit_example_5_again example_not_completed)
  have second: "onBoardKeyDown h (plain_key ''5'') = h\<lparr>board := ?P\<rparr>"
    using onBoardKeyDown_place[of h "plain_key ''5''" 5] n2
    by (simp add: h plain_key_def parseInt_digit_keys placeDigit_example_5_again)
  have b: "board (onBoardKeyDown (onBoardKeyDown h (plain_key ''5'')) (plain_key ''5'')) = board h"
  proof (rule place_digit_twice_restores[of h "plain_key ''5''" 5])
    show "in_grid (selectedCells h)" by (simp add: h in_grid_def)
    show "parseInt (key (plain_key ''5'')) = Some 5" by (simp add: plain_key_def parseInt_digit_keys)
    show "\<not> pencilMode h" by (simp add: h)
    show "\<not> ctrlKey (plain_key ''5'')" "\<not> metaKey (plain_key ''5'')" by (simp_all add: plain_key_def)
    show "(\<forall>(r, c)\<in>set (selectedCells h).
            if isGiven (puzzle h) r c then cell_at (board h) r c = Some (Digit 5)
            else cell_at (board h) r c = Some Empty)
         \<or> (\<forall>(r, c)\<in>set (selectedCells h).
            \<not> isGiven (puzzle h) r c \<longrightarrow> cell_at (board h) r c = Some (Digit 5))"
      by (simp add: h cell_at_example_board)
    have "marks_clear ?P example_board [(0, 6)] 5"
      unfolding example_board_def by (rule marks_clear_set_cell) (rule marks_clear_example_puzzle)
    then show "\<forall>(r, c)\<in>set (selectedCells h). \<not> isGiven (puzzle h) r c \<longrightarrow>
           (\<forall>r'<9. \<forall>c'<9. same_unit r c r' c' \<longrightarrow> \<not> has_mark 5 (cell_at (board h) r' c'))"
      by (simp add: h marks_clear_def)
    show "\<not> isPuzzleCompleted (solution h) (placeDigit (puzzle h) (board h) (selectedCells h) 5)"
      using n2 by (simp add: h)
  qed simp_all
  have r1: "run (initial ?P ?S) [Select ?sel, KeyDown (plain_key ''8'')] = onBoardKeyDown g (plain_key ''8'')"
    "run (initial ?P ?S) [Select ?sel, KeyDown (plain_key ''8''), KeyDown (plain_key ''8'')]
      = onBoardKeyDown (onBoardKeyDown g (plain_key ''8'')) (plain_key ''8'')"
    by (simp_all add: g_def run_def)
  have r2: "run (initial ?P ?S) [Select [(0, 6)], KeyDown (plain_key ''5''), KeyDown (plain_key ''5'')]
      = onBoardKeyDown h (plain_key ''5'')"
    "run (initial ?P ?S) [Select [(0, 6)], KeyDown (plain_key ''5''), KeyDown (plain_key ''5''),
         KeyDown (plain_key ''5'')]
      = onBoardKeyDown (onBoardKeyDown h (plain_key ''5'')) (plain_key ''5'')"
    by (simp_all add: h_def run_def)
  have "board (run (initial ?P ?S) [Select ?sel]) = ?P" using g by (simp add: g_def)
  moreover have "cell_at (board (run (initial ?P ?S) [Select ?sel, KeyDown (plain_key ''8'')])) 0 6
      = Some (Digit 8)"
    unfolding r1 first using c1 by simp
  moreover have "board (run (initial ?P ?S)
      [Select ?sel, KeyDown (plain_key ''8''), KeyDown (plain_key ''8'')]) = ?P"
    unfolding r1 a by (simp add: g)
  moreover have "board (run (initial ?P ?S) [Select [(0, 6)], KeyDown (plain_key ''5'')]) = example_board"
    using h by (simp add: h_def)
  moreover have "board (run (initial ?P ?S)
      [Select [(0, 6)], KeyDown (plain_key ''5''), KeyDown (plain_key ''5'')]) = ?P"
    unfolding r2 second by simp
  moreover have "board (run (initial ?P ?S) [Select [(0, 6)], KeyDown (plain_key ''5''),
      KeyDown (plain_key ''5''), KeyDown (plain_key ''5'')]) = example_board"
    unfolding r2 b by (simp add: h)
  ultimately show ?thesis using i by (simp add: parseInt_digit_keys)
qed

text \<open>
  The two conditions on the cells are also necessary: whenever two presses with pencil
  input off, the first of which does not complete the puzzle, restore a well-formed board,
  the selected cells and the pencil marks near them were as the law requires.
\<close>

lemma restoring_presses_only_if:
  assumes "wf_board (board g)" "in_grid (selectedCells g)"
    and "\<not> completed g" "selectedCells g \<noteq> []"
    and "parseInt (key e) = Some d" "1 \<le> d" "d \<le> 9"
    and "\<not> pencilMode g" "\<not> ctrlKey e" "\<not> metaKey e"
    and "\<not> isPuzzleCompleted (solution g)
             (placeDigit (puzzle g) (board g) (selectedCells g) d)"
    and "board (onBoardKeyDown (onBoardKeyDown g e) e) = board g"
  shows "((\<forall>(r, c)\<in>set (selectedCells g).
            if isGiven (puzzle g) r c then cell_at (board g) r c = Some (Digit d)
            else cell_at (board g) r c = Some Empty)
          \<or> (\<forall>(r, c)\<in>set (selectedCells g).
            \<not> isGiven (puzzle g) r c \<longrightarrow> cell_at (board g) r c = Some (Digit d)))
         \<and> (\<forall>(r, c)\<in>set (selectedCells g). \<not> isGiven (puzzle g) r c \<longrightarrow>
           (\<forall>r'<9. \<forall>c'<9. same_unit r c r' c' \<longrightarrow> \<not> has_mark d (cell_at (board g) r' c')))"
proof -
  let ?sel = "selectedCells g"
  let ?nb = "placeDigit (puzzle g) (board g) ?sel d"
  let ?g1 = "g\<lparr>board := ?nb, highlightNum := Some d\<rparr>"
  have first: "onBoardKeyDown g e = ?g1"
    using onBoardKeyDown_place[of g e d] assms(3-11) by simp
  have "board (onBoardKeyDown ?g1 e) = placeDigit (puzzle g) ?nb ?sel d"
    using onBoardKeyDown_place[of ?g1 e d] assms(3-10) by simp
  then have "placeDigit (puzzle g) ?nb ?sel d = board g"
    using first assms(12) by simp
  from placeDigit_twice_only_if[OF assms(1,2) this] show ?thesis
    unfolding marks_clear_def .
qed

section \<open>Properties of the solution counter\<close>

declare backtrack.simps [simp del] backtrack_loop.simps [simp del]

lemma backtrack_None: "findEmpty b = None \<Longrightarrow> backtrack b s = (b, s + 1)"
  by (simp add: backtrack.simps)

lemma backtrack_Some: "findEmpty b = Some (r, c) \<Longrightarrow> backtrack b s = backtrack_loop b r c 1 s"
  by (simp add: backtrack.simps)

lemma loop_done: "\<not> num \<le> 9 \<Longrightarrow> backtrack_loop b r c num s = (b, s)"
  by (subst backtrack_loop.simps) simp

lemma loop_invalid:
  "num \<le> 9 \<Longrightarrow> \<not> count_isValid b num r c \<Longrightarrow>
   backtrack_loop b r c num s = backtrack_loop b r c (num + 1) s"
  by (subst backtrack_loop.simps) simp

lemma loop_abort:
  "num \<le> 9 \<Longrightarrow> count_isValid b num r c \<Longrightarrow>
   backtrack (set_cell b r c (Digit num)) s = (b1, s1) \<Longrightarrow> 1 < s1 \<Longrightarrow>
   backtrack_loop b r c num s = (b1, s1)"
  by (subst backtrack_loop.simps) simp

lemma loop_continue:
  "num \<le> 9 \<Longrightarrow> count_isValid b num r c \<Longrightarrow>
   backtrack (set_cell b r c (Digit num)) s = (b1, s1) \<Longrightarrow> \<not> 1 < s1 \<Longrightarrow>
   backtrack_loop b r c num s = backtrack_loop (set_cell b1 r c Empty) r c (num + 1) s1"
  by (subst backtrack_loop.simps) simp

text \<open>The counter never decreases, and from at most 1 it never passes 2.\<close>

lemma backtrack_count_bounds:
  "s \<le> snd (backtrack b s) \<and> (s \<le> 1 \<longrightarrow> snd (backtrack b s) \<le> 2)"
  "s \<le> snd (backtrack_loop b r c num s) \<and> (s \<le> 1 \<longrightarrow> snd (backtrack_loop b r c num s) \<le> 2)"
proof (induct b s and b r c num s rule: backtrack_backtrack_loop.induct)
  case (1 b solutions)
  show ?case
  proof (cases "findEmpty b")
    case None
    then show ?thesis by (simp add: backtrack_None)
  next
    case (Some rc)
    obtain r c where rc: "rc = (r, c)" by (cases rc)
    show ?thesis using 1[OF Some rc[symmetric]] Some rc by (simp add: backtrack_Some)
  qed
next
  case (2 b r c num solutions)
  show ?case
  proof (cases "num \<le> 9")
    case False
    then show ?thesis by (simp add: loop_done)
  next
    case n9: True
    show ?thesis
    proof (cases "count_isValid b num r c")
      case False
      then show ?thesis using 2(3)[OF n9 False] n9 by (simp add: loop_invalid)
    next
      case v: True
      obtain b1 s1 where res: "backtrack (set_cell b r c (Digit num)) solutions = (b1, s1)"
        by (cases "backtrack (set_cell b r c (Digit num)) solutions")
      have ih1: "solutions \<le> s1 \<and> (solutions \<le> 1 \<longrightarrow> s1 \<le> 2)"
        using 2(1)[OF n9 v] res by simp
      show ?thesis
      proof (cases "1 < s1")
        case True
        then show ?thesis using ih1 by (simp add: loop_abort[OF n9 v res])
      next
        case False
        then show ?thesis
          using 2(2)[OF n9 v res[symmetric] False] ih1 by (auto simp: loop_continue[OF n9 v res])
      qed
    qed
  qed
qed

text \<open>A call that returns with the counter at most 1 has undone all its placements.\<close>

lemma backtrack_restores:
  "snd (backtrack b s) \<le> 1 \<Longrightarrow> fst (backtrack b s) = b"
  "cell_at b r c = Some Empty \<Longrightarrow> snd (backtrack_loop b r c num s) \<le> 1 \<Longrightarrow>
     fst (backtrack_loop b r c num s) = b"
proof (induct b s and b r c num s rule: backtrack_backtrack_loop.induct)
  case (1 b solutions)
  show ?case
  proof (cases "findEmpty b")
    case None
    then show ?thesis by (simp add: backtrack_None)
  next
    case (Some rc)
    obtain r c where rc: "rc = (r, c)" by (cases rc)
    have e: "cell_at b r c = Some Empty" using findEmpty_Some(1)[of b r c] Some rc by simp
    show ?thesis
      using "1.hyps"[OF Some rc[symmetric] e] "1.prems" Some rc by (simp add: backtrack_Some)
  qed
next
  case (2 b r c num solutions)
  note e = "2.prems"(1) and le = "2.prems"(2)
  show ?case
  proof (cases "num \<le> 9")
    case False
    then show ?thesis by (simp add: loop_done)
  next
    case n9: True
    show ?thesis
    proof (cases "count_isValid b num r c")
      case False
      then show ?thesis using "2.hyps"(3)[OF n9 False e] le n9 by (simp add: loop_invalid)
    next
      case v: True
      obtain b1 s1 where res: "backtrack (set_cell b r c (Digit num)) solutions = (b1, s1)"
        by (cases "backtrack (set_cell b r c (Digit num)) solutions")
      show ?thesis
      proof (cases "1 < s1")
        case True
        then show ?thesis using le by (simp add: loop_abort[OF n9 v res])
      next
        case s1: False
        then have "b1 = set_cell b r c (Digit num)"
          using "2.hyps"(1)[OF n9 v] res by simp
        then have rest: "set_cell b1 r c Empty = b"
          using e by (simp add: set_cell_twice set_cell_same)
        show ?thesis
          using "2.hyps"(2)[OF n9 v res[symmetric] s1] e le rest
          by (simp add: loop_continue[OF n9 v res s1])
      qed
    qed
  qed
qed

text \<open>A call entered with the counter at most 1 that returns with the counter above 1
  leaves no empty cell in the grid.\<close>

lemma backtrack_abort_full:
  "s \<le> 1 \<Longrightarrow> 1 < snd (backtrack b s) \<Longrightarrow> findEmpty (fst (backtrack b s)) = None"
  "s \<le> 1 \<Longrightarrow> 1 < snd (backtrack_loop b r c num s) \<Longrightarrow>
     findEmpty (fst (backtrack_loop b r c num s)) = None"
proof (induct b s and b r c num s rule: backtrack_backtrack_loop.induct)
  case (1 b solutions)
  show ?case
  proof (cases "findEmpty b")
    case None
    then show ?thesis by (simp add: backtrack_None)
  next
    case (Some rc)
    obtain r c where rc: "rc = (r, c)" by (cases rc)
    show ?thesis
      using "1.hyps"[OF Some rc[symmetric]] "1.prems" Some rc by (simp add: backtrack_Some)
  qed
next
  case (2 b r c num solutions)
  note s = "2.prems"(1) and gt = "2.prems"(2)
  show ?case
  proof (cases "num \<le> 9")
    case False
    then show ?thesis using s gt by (simp add: loop_done)
  next
    case n9: True
    show ?thesis
    proof (cases "count_isValid b num r c")
      case False
      then show ?thesis using "2.hyps"(3)[OF n9 False s] gt n9 by (simp add: loop_invalid)
    next
      case v: True
      obtain b1 s1 where res: "backtrack (set_cell b r c (Digit num)) solutions = (b1, s1)"
        by (cases "backtrack (set_cell b r c (Digit num)) solutions")
      show ?thesis
      proof (cases "1 < s1")
        case True
        then show ?thesis
          using "2.hyps"(1)[OF n9 v s] res by (simp add: loop_abort[OF n9 v res])
      next
        case s1: False
        then show ?thesis
          using "2.hyps"(2)[OF n9 v res[symmetric] s1] gt
          by (simp add: loop_continue[OF n9 v res s1])
      qed
    qed
  qed
qed

text \<open>Cells that are filled on entry are never written.\<close>

lemma backtrack_keeps_filled:
  "cell_at b r' c' = Some x \<Longrightarrow> x \<noteq> Empty \<Longrightarrow> cell_at (fst (backtrack b s)) r' c' = Some x"
  "cell_at b r c = Some Empty \<Longrightarrow> cell_at b r' c' = Some x \<Longrightarrow> x \<noteq> Empty \<Longrightarrow>
     cell_at (fst (backtrack_loop b r c num s)) r' c' = Some x"
proof (induct b s and b r c num s rule: backtrack_backtrack_loop.induct)
  case (1 b solutions)
  show ?case
  proof (cases "findEmpty b")
    case None
    then show ?thesis using "1.prems" by (simp add: backtrack_None)
  next
    case (Some rc)
    obtain r c where rc: "rc = (r, c)" by (cases rc)
    have e: "cell_at b r c = Some Empty" using findEmpty_Some(1)[of b r c] Some rc by simp
    show ?thesis
      using "1.hyps"[OF Some rc[symmetric] e "1.prems"] Some rc by (simp add: backtrack_Some)
  qed
next
  case (2 b r c num solutions)
  note e = "2.prems"(1) and x = "2.prems"(2) and ne = "2.prems"(3)
  have neq: "\<not> (r' = r \<and> c' = c)" using e x ne by auto
  show ?case
  proof (cases "num \<le> 9")
    case False
    then show ?thesis using x by (simp add: loop_done)
  next
    case n9: True
    show ?thesis
    proof (cases "count_isValid b num r c")
      case False
      then show ?thesis using "2.hyps"(3)[OF n9 False e x ne] n9 by (simp add: loop_invalid)
    next
      case v: True
      obtain b1 s1 where res: "backtrack (set_cell b r c (Digit num)) solutions = (b1, s1)"
        by (cases "backtrack (set_cell b r c (Digit num)) solutions")
      have "cell_at (set_cell b r c (Digit num)) r' c' = Some x"
        using x neq by (auto simp: cell_at_set_cell_iff)
      then have k1: "cell_at b1 r' c' = Some x"
        using "2.hyps"(1)[OF n9 v _ ne] res by simp
      show ?thesis
      proof (cases "1 < s1")
        case True
        then show ?thesis using k1 by (simp add: loop_abort[OF n9 v res])
      next
        case s1: False
        then have "b1 = set_cell b r c (Digit num)"
          using backtrack_restores(1)[of "set_cell b r c (Digit num)" solutions] res by simp
        then have rest: "set_cell b1 r c Empty = b"
          using e by (simp add: set_cell_twice set_cell_same)
        show ?thesis
          using "2.hyps"(2)[OF n9 v res[symmetric] s1] e x ne rest
          by (simp add: loop_continue[OF n9 v res s1])
      qed
    qed
  qed
qed

text \<open>Three nearly complete grids: the example solution with the four cells of a
  rectangle that admits two fillings removed; with one cell removed; and with one cell
  removed and its digit written into a second cell of its row.\<close>

definition example_two :: board where
  "example_two =
     set_cell (set_cell (set_cell (set_cell example_solution 0 0 Empty) 0 1 Empty) 3 0 Empty) 3 1 Empty"

definition example_one :: board where
  "example_one = set_cell example_solution 8 8 Empty"

definition example_none :: board where
  "example_none = set_cell (set_cell example_solution 8 8 Empty) 8 7 (Digit 6)"

lemma count_example_two: "countSolutions example_two = (example_solution, 2)"
  by code_simp

lemma count_example_one: "countSolutions example_one = (example_one, 1)"
  by code_simp

lemma count_example_none: "countSolutions example_none = (example_none, 0)"
  by code_simp

lemma wf_examples: "wf_board example_two" "wf_board example_one" "wf_board example_none"
  by (simp_all add: example_two_def example_one_def example_none_def wf_set_cell wf_example_solution)

text \<open>
  Claim C3: for every grid, \<^verbatim>\<open>countSolutions\<close> returns 0, 1 or 2; the counter starts
  at 0, only grows, and every loop of the search returns as soon as it exceeds 1.
\<close>

theorem countSolutions_range:
  assumes "wf_board b"
  shows "0 \<le> snd (countSolutions b) \<and> snd (countSolutions b) \<le> 2"
  using backtrack_count_bounds(1)[of 0 b] by (simp add: countSolutions_def)

theorem countSolutions_range_witness:
  "wf_board example_two \<and> wf_board example_puzzle
   \<and> snd (countSolutions example_two) = 2
   \<and> 0 \<le> snd (countSolutions example_puzzle) \<and> snd (countSolutions example_puzzle) \<le> 2"
  using countSolutions_range[OF wf_example_puzzle] wf_example_puzzle wf_examples(1)
  by (simp add: count_example_two)

text \<open>
  Claim C10: \<^verbatim>\<open>countSolutions\<close> works on the caller's grid.  When it returns 0 or 1 the
  grid is as it was before the call.  When it returns 2 the grid has no empty cell left,
  differs from the grid passed in, and agrees with it on every cell that was filled.
\<close>

theorem countSolutions_grid_effect:
  assumes "wf_board b"
  shows "(snd (countSolutions b) \<in> {0, 1} \<longrightarrow> fst (countSolutions b) = b)
       \<and> (snd (countSolutions b) = 2 \<longrightarrow>
            (\<forall>r<9. \<forall>c<9. cell_at (fst (countSolutions b)) r c \<noteq> Some Empty)
            \<and> fst (countSolutions b) \<noteq> b
            \<and> (\<forall>r c x. cell_at b r c = Some x \<and> x \<noteq> Empty
                  \<longrightarrow> cell_at (fst (countSolutions b)) r c = Some x))"
proof (intro conjI impI)
  assume "snd (countSolutions b) \<in> {0, 1}"
  then have "snd (backtrack b 0) \<le> 1" by (auto simp: countSolutions_def)
  then show "fst (countSolutions b) = b"
    unfolding countSolutions_def by (rule backtrack_restores(1))
next
  assume two: "snd (countSolutions b) = 2"
  then have full: "findEmpty (fst (countSolutions b)) = None"
    using backtrack_abort_full(1)[of 0 b] by (simp add: countSolutions_def)
  then show "\<forall>r<9. \<forall>c<9. cell_at (fst (countSolutions b)) r c \<noteq> Some Empty"
    by (simp add: findEmpty_None)
  show "fst (countSolutions b) \<noteq> b"
  proof
    assume "fst (countSolutions b) = b"
    then have "findEmpty b = None" using full by simp
    then have "snd (countSolutions b) = 1" by (simp add: countSolutions_def backtrack_None)
    then show False using two by simp
  qed
  show "\<forall>r c x. cell_at b r c = Some x \<and> x \<noteq> Empty
          \<longrightarrow> cell_at (fst (countSolutions b)) r c = Some x"
    unfolding countSolutions_def using backtrack_keeps_filled(1) by blast
qed

theorem countSolutions_grid_effect_witness:
  "wf_board example_two \<and> snd (countSolutions example_two) = 2
   \<and> fst (countSolutions example_two) = example_solution
   \<and> fst (countSolutions example_two) \<noteq> example_two
   \<and> wf_board example_one \<and> snd (countSolutions example_one) = 1
   \<and> fst (countSolutions example_one) = example_one
   \<and> wf_board example_none \<and> snd (countSolutions example_none) = 0
   \<and> fst (countSolutions example_none) = example_none"
  using countSolutions_grid_effect[OF wf_examples(1)] countSolutions_grid_effect[OF wf_examples(2)]
    countSolutions_grid_effect[OF wf_examples(3)] wf_examples
  by (simp add: count_example_two count_example_one count_example_none)

section \<open>Termination and depth of the solver\<close>

declare solve.simps [simp del] solve_loop.simps [simp del]
declare solve_bounded.simps [simp del] solve_loop_bounded.simps [simp del]

lemma solve_None: "findEmpty b = None \<Longrightarrow> solve shuf b k = (Some b, k)"
  by (simp add: solve.simps cloneBoard_id)

lemma solve_Some:
  "findEmpty b = Some (r, c) \<Longrightarrow> solve shuf b k = solve_loop shuf b r c (shuf k) (Suc k)"
  by (simp add: solve.simps cloneBoard_id)

lemma solve_loop_Nil: "solve_loop shuf b r c [] k = (None, k)"
  by (simp add: solve_loop.simps)

lemma solve_loop_invalid:
  "\<not> solve_isValid (set_cell b r c (Digit num)) num r c \<Longrightarrow>
   solve_loop shuf b r c (num # numbers) k
     = solve_loop shuf (set_cell (set_cell b r c (Digit num)) r c Empty) r c numbers k"
  by (simp add: solve_loop.simps)

lemma solve_loop_found:
  "solve_isValid (set_cell b r c (Digit num)) num r c \<Longrightarrow>
   solve shuf (set_cell b r c (Digit num)) k = (Some g, k') \<Longrightarrow>
   solve_loop shuf b r c (num # numbers) k = (Some g, k')"
  by (simp add: solve_loop.simps)

lemma solve_loop_failed:
  "solve_isValid (set_cell b r c (Digit num)) num r c \<Longrightarrow>
   solve shuf (set_cell b r c (Digit num)) k = (None, k') \<Longrightarrow>
   solve_loop shuf b r c (num # numbers) k
     = solve_loop shuf (set_cell (set_cell b r c (Digit num)) r c Empty) r c numbers k'"
  by (simp add: solve_loop.simps)

lemma length_all_coords: "length all_coords = 81"
  by (simp add: all_coords_def)

lemma count_empty_le_81: "count_empty b \<le> 81"
  unfolding count_empty_def using length_filter_le[of all_coords _ "\<lambda>x. True"]
  by (simp add: length_all_coords)

lemma solve_bounded_enough:
  "count_empty b \<le> d \<Longrightarrow> solve_bounded d shuf b k = Some (solve shuf b k)"
  "count_empty (set_cell b r c (Digit 0)) < d \<Longrightarrow>
     solve_loop_bounded d shuf b r c nums k = Some (solve_loop shuf b r c nums k)"
proof (induct shuf b k and shuf b r c nums k arbitrary: d and d rule: solve_solve_loop.induct)
  case (1 shuf b k)
  show ?case
  proof (cases "findEmpty b")
    case None
    then show ?thesis by (simp add: solve_None solve_bounded.simps cloneBoard_id)
  next
    case (Some rc)
    obtain r c where rc: "rc = (r, c)" by (cases rc)
    have fe: "findEmpty (cloneBoard b) = Some rc" using Some by (simp add: cloneBoard_id)
    have "count_empty (set_cell (cloneBoard b) r c (Digit 0)) < d"
      using findEmpty_count_less[of b r c 0] Some rc "1.prems" by (simp add: cloneBoard_id)
    from "1.hyps"[OF refl fe rc[symmetric] this] Some rc show ?thesis
      by (simp add: solve_Some solve_bounded.simps cloneBoard_id)
  qed
next
  case (2 shuf board r c k)
  show ?case by (simp add: solve_loop_Nil solve_loop_bounded.simps)
next
  case (3 shuf board r c num numbers k)
  let ?b1 = "set_cell board r c (Digit num)"
  have f: "count_empty (set_cell (set_cell ?b1 r c Empty) r c (Digit 0)) < d"
    using "3.prems" by (simp add: set_cell_twice)
  show ?case
  proof (cases "solve_isValid ?b1 num r c")
    case False
    then show ?thesis
      using "3.hyps"(3)[OF refl False f]
      by (simp add: solve_loop_invalid solve_loop_bounded.simps)
  next
    case v: True
    obtain d' where d: "d = Suc d'" using "3.prems" by (cases d) auto
    have "count_empty ?b1 \<le> d'"
      using "3.prems" count_empty_set_cell_filled[of "Digit num" "Digit 0" board r c] d by simp
    then have ih: "solve_bounded d' shuf ?b1 k = Some (solve shuf ?b1 k)"
      by (rule "3.hyps"(1)[OF refl v])
    obtain res k' where res: "solve shuf ?b1 k = (res, k')" by (cases "solve shuf ?b1 k")
    show ?thesis
    proof (cases res)
      case None
      then show ?thesis
        using "3.hyps"(2)[OF refl v res[symmetric] None f] ih res v d
        by (simp add: solve_loop_failed solve_loop_bounded.simps)
    next
      case (Some g)
      then show ?thesis
        using ih res v d by (simp add: solve_loop_found solve_loop_bounded.simps)
    qed
  qed
qed

text \<open>
  Claim C9: on every well-formed grid \<^verbatim>\<open>solve\<close> returns; the grid of each recursive call
  has strictly fewer empty cells than the grid of its caller; and the recursion never
  nests deeper than 81 calls.
\<close>

theorem solve_terminates:
  assumes "wf_board b"
  shows "solve_bounded 81 shuf b k = Some (solve shuf b k)
       \<and> count_empty b \<le> 81
       \<and> (\<forall>r c num. findEmpty (cloneBoard b) = Some (r, c) \<longrightarrow>
            count_empty (set_cell (cloneBoard b) r c (Digit num)) < count_empty b)"
  using solve_bounded_enough(1)[where b = b and d = 81 and shuf = shuf and k = k, OF count_empty_le_81]
    count_empty_le_81[of b]
    findEmpty_count_less[of b]
  by (simp add: cloneBoard_id)

theorem solve_terminates_witness:
  "wf_board example_one
   \<and> solve_bounded 81 (\<lambda>k. [1, 2, 3, 4, 5, 6, 7, 8, 9]) example_one 0
       = Some (solve (\<lambda>k. [1, 2, 3, 4, 5, 6, 7, 8, 9]) example_one 0)
   \<and> findEmpty (cloneBoard example_one) = Some (8, 8)
   \<and> count_empty (set_cell (cloneBoard example_one) 8 8 (Digit 6)) < count_empty example_one"
proof -
  have "findEmpty (cloneBoard example_one) = Some (8, 8)" by code_simp
  then show ?thesis
    using solve_terminates[OF wf_examples(2), of "\<lambda>k. [1, 2, 3, 4, 5, 6, 7, 8, 9]" 0] wf_examples(2)
    by simp
qed

section \<open>Grids returned by the solver\<close>

lemma peer_sym: "peer r c r' c' \<longleftrightarrow> peer r' c' r c"
  by (auto simp: peer_def same_unit_def)

lemma solve_isValid_iff:
  assumes "r < 9" "c < 9"
  shows "solve_isValid b n r c \<longleftrightarrow>
    (\<forall>r'<9. \<forall>c'<9. peer r c r' c' \<longrightarrow> cell_at b r' c' \<noteq> Some (Digit n))"
proof
  assume v: "solve_isValid b n r c"
  show "\<forall>r'<9. \<forall>c'<9. peer r c r' c' \<longrightarrow> cell_at b r' c' \<noteq> Some (Digit n)"
  proof (intro allI impI notI)
    fix r' c' assume h: "r' < 9" "c' < 9" "peer r c r' c'" "cell_at b r' c' = Some (Digit n)"
    from h(3) consider "r' = r" "c' \<noteq> c" | "c' = c" "r' \<noteq> r"
      | "r' div 3 = r div 3" "c' div 3 = c div 3" "r' \<noteq> r \<or> c' \<noteq> c"
      unfolding peer_def same_unit_def by auto
    then show False
    proof cases
      case 1 with h v show ?thesis
        unfolding solve_isValid_def Let_def list_ex_iff box_bex row_bex by blast
    next
      case 2 with h v show ?thesis
        unfolding solve_isValid_def Let_def list_ex_iff box_bex row_bex by blast
    next
      case 3 with h v show ?thesis
        unfolding solve_isValid_def Let_def list_ex_iff box_bex row_bex by blast
    qed
  qed
next
  assume a: "\<forall>r'<9. \<forall>c'<9. peer r c r' c' \<longrightarrow> cell_at b r' c' \<noteq> Some (Digit n)"
  have 1: "\<not> (\<exists>i<9. (cell_at b r i = Some (Digit n) \<and> i \<noteq> c) \<or> (cell_at b i c = Some (Digit n) \<and> i \<noteq> r))"
    using a assms unfolding peer_def same_unit_def by auto
  have 2: "\<not> (\<exists>i. i div 3 = r div 3 \<and> (\<exists>j. j div 3 = c div 3 \<and>
              cell_at b i j = Some (Digit n) \<and> (i \<noteq> r \<or> j \<noteq> c)))"
  proof
    assume "\<exists>i. i div 3 = r div 3 \<and> (\<exists>j. j div 3 = c div 3 \<and>
              cell_at b i j = Some (Digit n) \<and> (i \<noteq> r \<or> j \<noteq> c))"
    then obtain i j where ij: "i div 3 = r div 3" "j div 3 = c div 3"
      "cell_at b i j = Some (Digit n)" "i \<noteq> r \<or> j \<noteq> c" by blast
    have "i < 9" "j < 9" using ij(1,2) assms by (auto intro: box_lt)
    moreover have "peer r c i j" using ij(1,2,4) unfolding peer_def same_unit_def by auto
    ultimately show False using a ij(3) by blast
  qed
  show "solve_isValid b n r c"
    unfolding solve_isValid_def Let_def list_ex_iff box_bex row_bex using 1 2 by blast
qed

text \<open>A grid without pencil marks whose numbers lie in 1..9 and in which no two peers
  hold the same number.\<close>

definition sound_grid :: "board \<Rightarrow> bool" where
  "sound_grid b \<longleftrightarrow>
     (\<forall>r<9. \<forall>c<9. cell_at b r c = Some Empty
                   \<or> (\<exists>d. 1 \<le> d \<and> d \<le> 9 \<and> cell_at b r c = Some (Digit d)))
     \<and> (\<forall>r<9. \<forall>c<9. \<forall>d. cell_at b r c = Some (Digit d) \<longrightarrow>
           (\<forall>r'<9. \<forall>c'<9. peer r c r' c' \<longrightarrow> cell_at b r' c' \<noteq> Some (Digit d)))"

lemma sound_gridD1:
  "sound_grid b \<Longrightarrow> r < 9 \<Longrightarrow> c < 9 \<Longrightarrow>
   cell_at b r c = Some Empty \<or> (\<exists>d. 1 \<le> d \<and> d \<le> 9 \<and> cell_at b r c = Some (Digit d))"
  unfolding sound_grid_def by blast

lemma sound_gridD2:
  "sound_grid b \<Longrightarrow> r < 9 \<Longrightarrow> c < 9 \<Longrightarrow> cell_at b r c = Some (Digit d) \<Longrightarrow>
   r' < 9 \<Longrightarrow> c' < 9 \<Longrightarrow> peer r c r' c' \<Longrightarrow> cell_at b r' c' \<noteq> Some (Digit d)"
  unfolding sound_grid_def by blast

lemma sound_gridI:
  assumes "\<And>r c. r < 9 \<Longrightarrow> c < 9 \<Longrightarrow>
      cell_at b r c = Some Empty \<or> (\<exists>d. 1 \<le> d \<and> d \<le> 9 \<and> cell_at b r c = Some (Digit d))"
    and "\<And>r c d r' c'. r < 9 \<Longrightarrow> c < 9 \<Longrightarrow> cell_at b r c = Some (Digit d) \<Longrightarrow>
      r' < 9 \<Longrightarrow> c' < 9 \<Longrightarrow> peer r c r' c' \<Longrightarrow> cell_at b r' c' \<noteq> Some (Digit d)"
  shows "sound_grid b"
  unfolding sound_grid_def using assms by blast

lemma sound_emptyBoard: "sound_grid emptyBoard"
  by (rule sound_gridI) (simp_all add: cell_at_emptyBoard)

lemma sound_place:
  assumes s: "sound_grid b" and rc: "r < 9" "c < 9" and e: "cell_at b r c = Some Empty"
    and n: "1 \<le> n" "n \<le> 9" and v: "solve_isValid (set_cell b r c (Digit n)) n r c"
  shows "sound_grid (set_cell b r c (Digit n))"
proof (rule sound_gridI)
  let ?b = "set_cell b r c (Digit n)"
  have cell: "cell_at ?b r' c' = (if r' = r \<and> c' = c then Some (Digit n) else cell_at b r' c')"
    for r' c'
    using e by (simp add: cell_at_set_cell_iff)
  have v': "cell_at ?b r' c' \<noteq> Some (Digit n)" if "r' < 9" "c' < 9" "peer r c r' c'" for r' c'
    using v that unfolding solve_isValid_iff[OF rc] by blast
  show "cell_at ?b r1 c1 = Some Empty
          \<or> (\<exists>d. 1 \<le> d \<and> d \<le> 9 \<and> cell_at ?b r1 c1 = Some (Digit d))"
    if "r1 < 9" "c1 < 9" for r1 c1
  proof (cases "r1 = r \<and> c1 = c")
    case True
    then show ?thesis using n cell by auto
  next
    case False
    then have "cell_at ?b r1 c1 = cell_at b r1 c1" using cell[of r1 c1] by auto
    then show ?thesis using sound_gridD1[OF s that] by simp
  qed
  show "cell_at ?b r2 c2 \<noteq> Some (Digit d)"
    if h: "r1 < 9" "c1 < 9" "cell_at ?b r1 c1 = Some (Digit d)" "r2 < 9" "c2 < 9" "peer r1 c1 r2 c2"
    for r1 c1 d r2 c2
  proof (cases "r1 = r \<and> c1 = c")
    case True
    then have "d = n" using h(3) cell by simp
    then show ?thesis using v'[OF h(4,5)] h(6) True by simp
  next
    case False
    then have old: "cell_at b r1 c1 = Some (Digit d)" using h(3) cell[of r1 c1] by auto
    show ?thesis
    proof (cases "r2 = r \<and> c2 = c")
      case True
      show ?thesis
      proof
        assume "cell_at ?b r2 c2 = Some (Digit d)"
        then have "d = n" using True cell by simp
        moreover have "peer r c r1 c1" using h(6) True peer_sym[of r1 c1 r2 c2] by simp
        ultimately show False using v'[OF h(1,2)] h(3) by simp
      qed
    next
      case False
      then have "cell_at ?b r2 c2 = cell_at b r2 c2" using cell[of r2 c2] by auto
      then show ?thesis using sound_gridD2[OF s h(1,2) old h(4,5,6)] by simp
    qed
  qed
qed

lemma solve_sound:
  "sound_grid b \<Longrightarrow> \<forall>j. set (shuf j) \<subseteq> {1..9} \<Longrightarrow> fst (solve shuf b k) = Some g \<Longrightarrow>
     sound_grid g \<and> findEmpty g = None"
  "sound_grid b \<Longrightarrow> cell_at b r c = Some Empty \<Longrightarrow> r < 9 \<Longrightarrow> c < 9 \<Longrightarrow> set nums \<subseteq> {1..9} \<Longrightarrow>
     \<forall>j. set (shuf j) \<subseteq> {1..9} \<Longrightarrow> fst (solve_loop shuf b r c nums k) = Some g \<Longrightarrow>
     sound_grid g \<and> findEmpty g = None"
proof (induct shuf b k and shuf b r c nums k rule: solve_solve_loop.induct)
  case (1 shuf b k)
  show ?case
  proof (cases "findEmpty b")
    case None
    then show ?thesis using "1.prems" by (simp add: solve_None)
  next
    case (Some rc)
    obtain r c where rc: "rc = (r, c)" by (cases rc)
    have fe: "findEmpty (cloneBoard b) = Some rc" using Some by (simp add: cloneBoard_id)
    have e: "cell_at b r c = Some Empty" "r < 9" "c < 9"
      using findEmpty_Some[of b r c] Some rc by simp_all
    have "fst (solve_loop shuf b r c (shuf k) (Suc k)) = Some g"
      using "1.prems"(3) Some rc by (simp add: solve_Some)
    then show ?thesis
      using "1.hyps"[OF refl fe rc[symmetric]] "1.prems"(1,2) e by (simp add: cloneBoard_id)
  qed
next
  case (2 shuf board r c k)
  then show ?case by (simp add: solve_loop_Nil)
next
  case (3 shuf board r c num numbers k)
  let ?b1 = "set_cell board r c (Digit num)"
  note s = "3.prems"(1) and e = "3.prems"(2) and rc = "3.prems"(3,4) and ns = "3.prems"(5)
    and sh = "3.prems"(6) and res = "3.prems"(7)
  have rest: "set_cell ?b1 r c Empty = board"
    using e by (simp add: set_cell_twice set_cell_same)
  have ns': "set numbers \<subseteq> {1..9}" and n: "1 \<le> num" "num \<le> 9" using ns by auto
  show ?case
  proof (cases "solve_isValid ?b1 num r c")
    case False
    then have "fst (solve_loop shuf board r c numbers k) = Some g"
      using res rest by (simp add: solve_loop_invalid)
    then show ?thesis using "3.hyps"(3)[OF refl False] s e rc ns' sh rest by simp
  next
    case v: True
    have s1: "sound_grid ?b1" using s rc e n v by (rule sound_place)
    obtain x k' where x: "solve shuf ?b1 k = (x, k')" by (cases "solve shuf ?b1 k")
    show ?thesis
    proof (cases x)
      case None
      then have "fst (solve_loop shuf board r c numbers k') = Some g"
        using res rest v x by (simp add: solve_loop_failed)
      then show ?thesis
        using "3.hyps"(2)[OF refl v x[symmetric] None] s e rc ns' sh rest by simp
    next
      case (Some g')
      then have "g' = g" using res v x by (simp add: solve_loop_found)
      then show ?thesis using "3.hyps"(1)[OF refl v s1 sh] x Some by simp
    qed
  qed
qed

subsection \<open>Rows, columns and boxes of a complete grid\<close>

text \<open>The coordinates of the nine rows, the nine columns and the nine boxes.\<close>

definition rows :: "coords list list" where
  "rows = map (\<lambda>r. map (\<lambda>c. (r, c)) [0..<9]) [0..<9]"

definition cols :: "coords list list" where
  "cols = map (\<lambda>c. map (\<lambda>r. (r, c)) [0..<9]) [0..<9]"

definition boxes :: "coords list list" where
  "boxes = map (\<lambda>(br, bc). List.product [br * 3..<br * 3 + 3] [bc * 3..<bc * 3 + 3])
             (List.product [0..<3] [0..<3])"

text \<open>The cells at the coordinates \<open>u\<close> hold each of the digits 1 to 9 exactly once.\<close>

definition holds_all_digits :: "board \<Rightarrow> coords list \<Rightarrow> bool" where
  "holds_all_digits g u =
     list_all (\<lambda>d. count_list (map (\<lambda>(r, c). cell_at g r c) u) (Some (Digit d)) = 1) [1..9]"

definition valid_grid :: "board \<Rightarrow> bool" where
  "valid_grid g = list_all (holds_all_digits g) (rows @ cols @ boxes)"

text \<open>A unit: nine different cells of the grid, any two of them peers.\<close>

definition is_unit :: "coords list \<Rightarrow> bool" where
  "is_unit u \<longleftrightarrow>
     distinct u \<and> length u = 9 \<and> (\<forall>p\<in>set u. fst p < 9 \<and> snd p < 9)
     \<and> (\<forall>p\<in>set u. \<forall>q\<in>set u. p \<noteq> q \<longrightarrow> peer (fst p) (snd p) (fst q) (snd q))"

lemma is_unit_row:
  assumes "r < 9"
  shows "is_unit (map (\<lambda>c. (r, c)) [0..<9])"
proof -
  have "distinct (map (\<lambda>c. (r, c)) [0..<9])" by (simp add: distinct_map inj_on_def)
  moreover have "\<forall>p\<in>set (map (\<lambda>c. (r, c)) [0..<9]). fst p < 9 \<and> snd p < 9"
    using assms by auto
  moreover have "\<forall>p\<in>set (map (\<lambda>c. (r, c)) [0..<9]).
          \<forall>q\<in>set (map (\<lambda>c. (r, c)) [0..<9]). p \<noteq> q \<longrightarrow> peer (fst p) (snd p) (fst q) (snd q)"
    by (auto simp: peer_def same_unit_def)
  ultimately show ?thesis by (simp add: is_unit_def)
qed

lemma is_unit_col:
  assumes "c < 9"
  shows "is_unit (map (\<lambda>r. (r, c)) [0..<9])"
proof -
  have "distinct (map (\<lambda>r. (r, c)) [0..<9])" by (simp add: distinct_map inj_on_def)
  moreover have "\<forall>p\<in>set (map (\<lambda>r. (r, c)) [0..<9]). fst p < 9 \<and> snd p < 9"
    using assms by auto
  moreover have "\<forall>p\<in>set (map (\<lambda>r. (r, c)) [0..<9]).
          \<forall>q\<in>set (map (\<lambda>r. (r, c)) [0..<9]). p \<noteq> q \<longrightarrow> peer (fst p) (snd p) (fst q) (snd q)"
    by (auto simp: peer_def same_unit_def)
  ultimately show ?thesis by (simp add: is_unit_def)
qed

lemma is_unit_box:
  assumes "br < 3" "bc < 3"
  shows "is_unit (List.product [br * 3..<br * 3 + 3] [bc * 3..<bc * 3 + 3])" (is "is_unit ?u")
proof -
  have m: "p \<in> set ?u \<longleftrightarrow> fst p div 3 = br \<and> snd p div 3 = bc" for p
  proof -
    have "(br * 3 \<le> fst p \<and> fst p < br * 3 + 3) = (fst p div 3 = br)" by arith
    moreover have "(bc * 3 \<le> snd p \<and> snd p < bc * 3 + 3) = (snd p div 3 = bc)" by arith
    ultimately show ?thesis by (cases p) simp
  qed
  have lt: "r < 9" if "r div 3 = b3" "b3 < 3" for r b3 :: nat using that by arith
  have 1: "distinct ?u" by (simp add: distinct_product)
  have 2: "length ?u = 9" by (simp add: length_product)
  have 3: "\<forall>p\<in>set ?u. fst p < 9 \<and> snd p < 9"
  proof (rule ballI)
    fix p assume "p \<in> set ?u"
    then have "fst p div 3 = br" "snd p div 3 = bc" using m by blast+
    then show "fst p < 9 \<and> snd p < 9" using lt assms by blast
  qed
  have 4: "\<forall>p\<in>set ?u. \<forall>q\<in>set ?u. p \<noteq> q \<longrightarrow> peer (fst p) (snd p) (fst q) (snd q)"
  proof (intro ballI impI)
    fix p q assume "p \<in> set ?u" "q \<in> set ?u" "p \<noteq> q"
    then have "fst p div 3 = br" "snd p div 3 = bc" "fst q div 3 = br" "snd q div 3 = bc"
      "(fst q, snd q) \<noteq> (fst p, snd p)"
      using m by (blast, blast, blast, blast, auto simp: prod_eq_iff)
    then show "peer (fst p) (snd p) (fst q) (snd q)"
      unfolding peer_def same_unit_def by simp
  qed
  show ?thesis unfolding is_unit_def using 1 2 3 4 by blast
qed

lemma units_are_units:
  assumes "u \<in> set (rows @ cols @ boxes)"
  shows "is_unit u"
proof -
  from assms consider "u \<in> set rows" | "u \<in> set cols" | "u \<in> set boxes" by auto
  then show ?thesis
  proof cases
    case 1
    then obtain r where "r < 9" "u = map (\<lambda>c. (r, c)) [0..<9]" unfolding rows_def by auto
    then show ?thesis by (simp add: is_unit_row)
  next
    case 2
    then obtain c where "c < 9" "u = map (\<lambda>r. (r, c)) [0..<9]" unfolding cols_def by auto
    then show ?thesis by (simp add: is_unit_col)
  next
    case 3
    then obtain br bc where "br < 3" "bc < 3"
      "u = List.product [br * 3..<br * 3 + 3] [bc * 3..<bc * 3 + 3]"
      unfolding boxes_def by auto
    then show ?thesis using is_unit_box by blast
  qed
qed

lemma count_list_distinct: "distinct xs \<Longrightarrow> x \<in> set xs \<Longrightarrow> count_list xs x = 1"
  by (induction xs) (auto simp: count_list_0_iff)

lemma card_digit_cells: "card ((\<lambda>d. Some (Digit d)) ` {1..9::int}) = 9"
proof -
  have "inj_on (\<lambda>d. Some (Digit d)) {1..9::int}" by (simp add: inj_on_def)
  then show ?thesis by (simp add: card_image)
qed

lemma unit_complete:
  assumes s: "sound_grid g" and f: "findEmpty g = None" and u: "is_unit u"
  shows "holds_all_digits g u"
proof -
  let ?f = "\<lambda>(r, c). cell_at g r c"
  let ?D = "(\<lambda>d. Some (Digit d)) ` {1..9::int}"
  have dig: "?f p \<in> ?D" if "p \<in> set u" for p
  proof -
    obtain r c where p: "p = (r, c)" by (cases p)
    have rc: "r < 9" "c < 9" using u that unfolding is_unit_def p by force+
    have "cell_at g r c \<noteq> Some Empty" using f rc by (simp add: findEmpty_None)
    then show ?thesis using sound_gridD1[OF s rc] p by auto
  qed
  have inj: "inj_on ?f (set u)"
  proof (rule inj_onI)
    fix p q assume pq: "p \<in> set u" "q \<in> set u" "?f p = ?f q"
    obtain r c where p: "p = (r, c)" by (cases p)
    obtain r' c' where q: "q = (r', c')" by (cases q)
    have rc: "r < 9" "c < 9" "r' < 9" "c' < 9" using u pq(1,2) unfolding is_unit_def p q by force+
    obtain d where d: "cell_at g r c = Some (Digit d)" using dig[OF pq(1)] p by auto
    show "p = q"
    proof (rule ccontr)
      assume "p \<noteq> q"
      then have "peer r c r' c'" using u pq(1,2) unfolding is_unit_def p q by force
      then have "cell_at g r' c' \<noteq> Some (Digit d)"
        using sound_gridD2[OF s rc(1,2) d rc(3,4)] by simp
      then show False using pq(3) d p q by simp
    qed
  qed
  have dist: "distinct (map ?f u)"
    using u inj by (simp add: distinct_map is_unit_def)
  have "card (set (map ?f u)) = 9"
    using distinct_card[OF dist] u by (simp add: is_unit_def)
  moreover have "set (map ?f u) \<subseteq> ?D" using dig by auto
  ultimately have all: "set (map ?f u) = ?D"
    using card_subset_eq[of ?D "set (map ?f u)"] card_digit_cells by simp
  have "count_list (map ?f u) (Some (Digit d)) = 1" if "d \<in> {1..9}" for d
    using that all by (intro count_list_distinct[OF dist]) blast
  then show ?thesis by (simp add: holds_all_digits_def list_all_iff)
qed

lemma sound_full_valid: "sound_grid g \<Longrightarrow> findEmpty g = None \<Longrightarrow> valid_grid g"
  unfolding valid_grid_def list_all_iff using unit_complete units_are_units by blast

text \<open>
  Claim C2: whatever orders the shuffles produce, a grid that \<^verbatim>\<open>solve\<close> returns for the
  fully empty grid holds every digit exactly once in every row, column and box.
\<close>

theorem solve_empty_grid_valid:
  assumes "\<forall>j. distinct (shuf j) \<and> set (shuf j) = {1..9}"
    and "fst (solve shuf emptyBoard k) = Some g"
  shows "valid_grid g"
proof -
  have "\<forall>j. set (shuf j) \<subseteq> {1..9}" using assms(1) by simp
  from solve_sound(1)[OF sound_emptyBoard this assms(2)] show ?thesis
    by (simp add: sound_full_valid)
qed

text \<open>
  One run of the shuffles: whenever the cell \<open>k\<close> (in row-major order) is to be filled,
  the shuffle yields the rotation of 1..9 that starts with the example solution's digit for
  that cell.
\<close>

definition example_shuffle :: "nat \<Rightarrow> int list" where
  "example_shuffle k =
     (case cell_at example_solution (k div 9) (k mod 9) of
        Some (Digit d) \<Rightarrow> rotate (nat (d - 1)) [1, 2, 3, 4, 5, 6, 7, 8, 9]
      | _ \<Rightarrow> [1, 2, 3, 4, 5, 6, 7, 8, 9])"

lemma example_shuffle_perm: "distinct (example_shuffle j) \<and> set (example_shuffle j) = {1..9}"
proof -
  have "set [1, 2, 3, 4, 5, 6, 7, 8, 9 :: int] = {1..9}" by auto
  then show ?thesis
    unfolding example_shuffle_def by (auto split: option.splits cell.splits)
qed

lemma solve_example: "solve example_shuffle emptyBoard 0 = (Some example_solution, 81)"
  by code_simp

theorem solve_empty_grid_valid_witness:
  "(\<forall>j. distinct (example_shuffle j) \<and> set (example_shuffle j) = {1..9})
   \<and> fst (solve example_shuffle emptyBoard 0) = Some example_solution
   \<and> valid_grid example_solution"
proof -
  have p: "\<forall>j. distinct (example_shuffle j) \<and> set (example_shuffle j) = {1..9}"
    using example_shuffle_perm by blast
  have s: "fst (solve example_shuffle emptyBoard 0) = Some example_solution"
    by (simp add: solve_example)
  show ?thesis using solve_empty_grid_valid[OF p s] p s by blast
qed

section \<open>Properties of the puzzle generator\<close>

text \<open>Board \<open>a\<close> is board \<open>b\<close> with some cells emptied.\<close>

definition carved_from :: "board \<Rightarrow> board \<Rightarrow> bool" where
  "carved_from a b \<longleftrightarrow>
     shape a = shape b \<and> (\<forall>r c. cell_at a r c = Some Empty \<or> cell_at a r c = cell_at b r c)"

lemma carved_from_refl: "carved_from b b"
  by (simp add: carved_from_def)

lemma carved_from_trans: "carved_from a b \<Longrightarrow> carved_from b c \<Longrightarrow> carved_from a c"
  unfolding carved_from_def by metis

lemma carved_from_set_Empty: "carved_from (set_cell b r c Empty) b"
  by (simp add: carved_from_def shape_set_cell cell_at_set_cell_iff)

lemma put_back_same: "put_back (set_cell b r c Empty) r c (cell_at b r c) = b"
proof (cases "cell_at b r c")
  case None
  then have "set_cell b r c Empty = b"
    by (intro board_eqI) (simp_all add: shape_set_cell cell_at_set_cell_iff)
  then show ?thesis using None by (simp add: put_back_def)
next
  case (Some v)
  then show ?thesis by (simp add: put_back_def set_cell_twice set_cell_same)
qed

lemma carve_partial_correct:
  assumes "carve rnd i p n = Some y"
  shows "carved_from p sol \<and> (n \<le> 0 \<longrightarrow> snd (countSolutions p) = 1)
         \<longrightarrow> carved_from y sol \<and> snd (countSolutions y) = 1"
proof (rule carve.raw_induct[where P = "\<lambda>rnd i p n y.
    carved_from p sol \<and> (n \<le> 0 \<longrightarrow> snd (countSolutions p) = 1)
         \<longrightarrow> carved_from y sol \<and> snd (countSolutions y) = 1", OF _ assms], goal_cases)
  case (1 carve' rnd i p n y)
  show ?case
  proof (intro impI)
    assume pre: "carved_from p sol \<and> (n \<le> 0 \<longrightarrow> snd (countSolutions p) = 1)"
    let ?r = "nat \<lfloor>rnd i * 9\<rfloor>" and ?c = "nat \<lfloor>rnd (i + 1) * 9\<rfloor>"
    let ?p1 = "set_cell p ?r ?c Empty"
    show "carved_from y sol \<and> snd (countSolutions y) = 1"
    proof (cases "n > 0")
      case False
      then show ?thesis using 1(2) pre by simp
    next
      case n: True
      show ?thesis
      proof (cases "cell_at p ?r ?c \<noteq> Some Empty")
        case False
        then have "carve' rnd (i + 2) p n = Some y" using 1(2) n by (simp add: Let_def)
        from 1(1)[OF this] pre n show ?thesis by simp
      next
        case ne: True
        show ?thesis
        proof (cases "snd (countSolutions ?p1) = 1")
          case True
          then have "carve' rnd (i + 2) ?p1 (n - 1) = Some y"
            using 1(2) n ne by (simp add: Let_def cloneBoard_id)
          moreover have "carved_from ?p1 sol"
            using carved_from_trans[OF carved_from_set_Empty] pre by blast
          ultimately show ?thesis using 1(1) True by blast
        next
          case False
          then have "carve' rnd (i + 2) p n = Some y"
            using 1(2) n ne by (simp add: Let_def cloneBoard_id put_back_same)
          from 1(1)[OF this] pre n show ?thesis by simp
        qed
      qed
    qed
  qed
qed

text \<open>
  Claim C1: whenever \<^verbatim>\<open>generateNewPuzzle\<close> returns a pair, every filled cell of the puzzle
  holds what the solution holds there, and \<^verbatim>\<open>countSolutions\<close> of the puzzle is 1.
\<close>

theorem generate_puzzle_unique:
  assumes "generateNewPuzzle shuf rnd = Some (Inr (puz, sol))"
    and "\<forall>i. 0 \<le> rnd i \<and> rnd i < 1"
  shows "(\<forall>r<9. \<forall>c<9. cell_at puz r c \<noteq> Some Empty \<longrightarrow> cell_at puz r c = cell_at sol r c)
       \<and> snd (countSolutions puz) = 1"
proof -
  let ?n = "\<lfloor>rnd 0 * (50 - 40 + 1)\<rfloor> + 46"
  have s: "fst (solve shuf emptyBoard 0) = Some sol"
    and c: "carve rnd 1 sol ?n = Some puz"
    using assms(1) unfolding generateNewPuzzle_def Let_def cloneBoard_id
    by (auto split: option.splits)
  have "0 \<le> rnd 0 * 11" using assms(2) by simp
  then have f: "0 \<le> \<lfloor>rnd 0 * 11\<rfloor>" by (simp only: zero_le_floor)
  have e: "?n = \<lfloor>rnd 0 * 11\<rfloor> + 46" by simp
  have "0 < ?n" unfolding e using f by linarith
  then have "carved_from puz sol \<and> snd (countSolutions puz) = 1"
    using carve_partial_correct[OF c, of sol] carved_from_refl[of sol] by linarith
  then show ?thesis unfolding carved_from_def by blast
qed

subsection \<open>Puzzles whose search never branches\<close>

text \<open>
  \<open>forced sol b\<close>: the search of \<^verbatim>\<open>countSolutions\<close> on \<open>b\<close> meets, at every empty cell it
  visits, exactly one digit that passes \<^verbatim>\<open>isValid\<close>, namely the digit of \<open>sol\<close>.
\<close>

function forced :: "board \<Rightarrow> board \<Rightarrow> bool" where
  "forced sol b =
     (case findEmpty b of
        None \<Rightarrow> True
      | Some (r, c) \<Rightarrow>
          (case cell_at sol r c of
             Some (Digit d) \<Rightarrow>
               1 \<le> d \<and> d \<le> 9
               \<and> list_all (\<lambda>num. count_isValid b num r c = (num = d)) [1..9]
               \<and> forced sol (set_cell b r c (Digit d))
           | _ \<Rightarrow> False))"
  by pat_completeness auto
termination
  by (relation "measure (\<lambda>(sol, b). count_empty b)") (auto simp: findEmpty_count_less)

declare forced.simps [simp del]

lemma forced_None: "findEmpty b = None \<Longrightarrow> forced sol b"
  by (subst forced.simps) simp

lemma forced_Some:
  "findEmpty b = Some (r, c) \<Longrightarrow>
   forced sol b \<longleftrightarrow>
     (\<exists>d. cell_at sol r c = Some (Digit d) \<and> 1 \<le> d \<and> d \<le> 9
          \<and> (\<forall>num. 1 \<le> num \<and> num \<le> 9 \<longrightarrow> count_isValid b num r c = (num = d))
          \<and> forced sol (set_cell b r c (Digit d)))"
  by (subst forced.simps) (auto simp: list_all_iff split: option.splits cell.splits)

lemma loop_skip:
  "(\<And>m. num \<le> m \<Longrightarrow> m \<le> 9 \<Longrightarrow> \<not> count_isValid b m r c) \<Longrightarrow>
   backtrack_loop b r c num s = (b, s)"
proof (induction "nat (10 - num)" arbitrary: num)
  case 0
  then show ?case by (simp add: loop_done)
next
  case (Suc k)
  then have n9: "num \<le> 9" by linarith
  have "backtrack_loop b r c (num + 1) s = (b, s)"
    using Suc.hyps(2) Suc.prems by (intro Suc.hyps(1)) auto
  then show ?case using loop_invalid[OF n9 Suc.prems[OF order_refl n9]] by simp
qed

lemma loop_hit:
  assumes e: "cell_at b r c = Some Empty" and d9: "d \<le> 9"
    and v: "count_isValid b d r c"
    and inner: "backtrack (set_cell b r c (Digit d)) 0 = (set_cell b r c (Digit d), 1)"
  shows "num \<le> d \<Longrightarrow> (\<And>m. num \<le> m \<Longrightarrow> m \<le> 9 \<Longrightarrow> m \<noteq> d \<Longrightarrow> \<not> count_isValid b m r c) \<Longrightarrow>
         backtrack_loop b r c num 0 = (b, 1)"
proof (induction "nat (d - num)" arbitrary: num)
  case 0
  then have nd: "num = d" by linarith
  have rest: "set_cell (set_cell b r c (Digit d)) r c Empty = b"
    using e by (simp add: set_cell_twice set_cell_same)
  have "backtrack_loop b r c (d + 1) 1 = (b, 1)"
    using "0.prems"(2) nd by (intro loop_skip) auto
  then show ?case
    using loop_continue[OF d9 v inner, of ] rest nd by simp
next
  case (Suc k)
  then have lt: "num < d" by linarith
  then have n9: "num \<le> 9" using d9 by linarith
  have iv: "\<not> count_isValid b num r c" using Suc.prems(2)[of num] lt n9 by simp
  have "backtrack_loop b r c (num + 1) 0 = (b, 1)"
    using Suc.hyps(2) Suc.prems lt by (intro Suc.hyps(1)) auto
  then show ?case using loop_invalid[OF n9 iv] by simp
qed

lemma forced_count: "forced sol b \<Longrightarrow> backtrack b 0 = (b, 1)"
proof (induction sol b rule: forced.induct)
  case (1 sol b)
  show ?case
  proof (cases "findEmpty b")
    case None
    then show ?thesis by (simp add: backtrack_None)
  next
    case (Some rc)
    obtain r c where rc: "rc = (r, c)" by (cases rc)
    have fe: "findEmpty b = Some (r, c)" using Some rc by simp
    from "1.prems" obtain d where d: "cell_at sol r c = Some (Digit d)" "1 \<le> d" "d \<le> 9"
      and only: "\<And>num. 1 \<le> num \<Longrightarrow> num \<le> 9 \<Longrightarrow> count_isValid b num r c = (num = d)"
      and f1: "forced sol (set_cell b r c (Digit d))"
      unfolding forced_Some[OF fe] by blast
    have inner: "backtrack (set_cell b r c (Digit d)) 0 = (set_cell b r c (Digit d), 1)"
      using "1.IH"[OF Some rc[symmetric] d(1) refl f1] .
    have e: "cell_at b r c = Some Empty" using findEmpty_Some(1)[OF fe] .
    have "backtrack_loop b r c 1 0 = (b, 1)"
      using only d(2,3) by (intro loop_hit[OF e d(3) _ inner]) auto
    then show ?thesis using fe by (simp add: backtrack_Some)
  qed
qed

lemma count_isValid_iff:
  assumes "r < 9" "c < 9"
  shows "count_isValid b n r c \<longleftrightarrow>
    (\<forall>r'<9. \<forall>c'<9. same_unit r c r' c' \<longrightarrow> cell_at b r' c' \<noteq> Some (Digit n))"
proof -
  have "count_isValid b n r c = (\<not> pencilConflict b r c n)"
    by (simp add: count_isValid_def pencilConflict_def Let_def)
  then show ?thesis unfolding pencilConflict_iff[OF assms] by blast
qed

lemma carved_from_cell:
  "carved_from a b \<Longrightarrow> cell_at a r c \<noteq> Some Empty \<Longrightarrow> cell_at b r c = cell_at a r c"
  unfolding carved_from_def by metis

lemma carved_from_Empty:
  "carved_from a b \<Longrightarrow> cell_at b r c = Some Empty \<Longrightarrow> cell_at a r c = Some Empty"
  unfolding carved_from_def by metis

lemma findEmpty_carved:
  assumes "findEmpty a = Some (r, c)" "carved_from a b" "cell_at b r c = Some Empty"
  shows "findEmpty b = Some (r, c)"
proof -
  from assms(1) obtain i where i: "i < length all_coords" "all_coords ! i = (r, c)"
    and first: "\<forall>j<i. \<not> (case all_coords ! j of (r, c) \<Rightarrow> cell_at a r c = Some Empty)"
    unfolding findEmpty_def find_Some_iff by auto
  have "\<not> (case all_coords ! j of (r, c) \<Rightarrow> cell_at b r c = Some Empty)" if "j < i" for j
    using first that carved_from_Empty[OF assms(2)] by (auto simp: case_prod_beta)
  then show ?thesis
    unfolding findEmpty_def find_Some_iff using i assms(3) by (intro exI[of _ i]) auto
qed

lemma findEmpty_None_carved:
  assumes "findEmpty a = None" "carved_from a b"
  shows "findEmpty b = None"
  unfolding findEmpty_None
proof (intro allI impI)
  fix r c :: nat assume "r < 9" "c < 9"
  then have "cell_at a r c \<noteq> Some Empty" using assms(1) by (simp add: findEmpty_None)
  then show "cell_at b r c \<noteq> Some Empty" using carved_from_cell[OF assms(2)] by simp
qed

lemma cell_at_None_shape: "shape a = shape b \<Longrightarrow> cell_at a r c = None \<longleftrightarrow> cell_at b r c = None"
proof -
  assume s: "shape a = shape b"
  then have l: "length a = length b" unfolding shape_def by (metis length_map)
  have "length (a ! r) = length (b ! r)" if "r < length a"
    using s that l unfolding shape_def by (metis nth_map)
  then show ?thesis using l by (auto simp: cell_at_def)
qed

lemma carved_from_fill_right:
  assumes "carved_from a b" "cell_at a r c = Some Empty"
  shows "carved_from a (set_cell b r c v)"
  using assms unfolding carved_from_def
  by (auto simp: shape_set_cell cell_at_set_cell_iff)

lemma carved_from_fill_left:
  assumes "carved_from a b" "cell_at b r c = Some v"
  shows "carved_from (set_cell a r c v) b"
proof -
  have "cell_at a r c \<noteq> None"
    using assms cell_at_None_shape[of a b r c] unfolding carved_from_def by simp
  then show ?thesis
    using assms unfolding carved_from_def
    by (auto simp: shape_set_cell cell_at_set_cell_iff)
qed

lemma forced_mono:
  "forced sol a \<Longrightarrow> sound_grid sol \<Longrightarrow> carved_from a b \<Longrightarrow> carved_from b sol \<Longrightarrow> forced sol b"
proof (induction sol a arbitrary: b rule: forced.induct)
  case (1 sol a)
  note fa = "1.prems"(1) and snd = "1.prems"(2) and ab = "1.prems"(3) and bs = "1.prems"(4)
  show ?case
  proof (cases "findEmpty a")
    case None
    then show ?thesis using findEmpty_None_carved[OF None ab] by (simp add: forced_None)
  next
    case (Some rc)
    obtain r c where rc: "rc = (r, c)" by (cases rc)
    have fe: "findEmpty a = Some (r, c)" using Some rc by simp
    have rc9: "r < 9" "c < 9" and ea: "cell_at a r c = Some Empty"
      using findEmpty_Some[OF fe] by simp_all
    from fa obtain d where d: "cell_at sol r c = Some (Digit d)" "1 \<le> d" "d \<le> 9"
      and only: "\<And>num. 1 \<le> num \<Longrightarrow> num \<le> 9 \<Longrightarrow> count_isValid a num r c = (num = d)"
      and f1: "forced sol (set_cell a r c (Digit d))"
      unfolding forced_Some[OF fe] by blast
    note IH = "1.IH"[OF Some rc[symmetric] d(1) refl f1 snd]
    show ?thesis
    proof (cases "cell_at b r c = Some Empty")
      case eb: True
      have fb: "findEmpty b = Some (r, c)" using fe ab eb by (rule findEmpty_carved)
      let ?b1 = "set_cell b r c (Digit d)"
      have "cell_at ?b1 r c = Some (Digit d)" using eb by (simp add: cell_at_set_cell_iff)
      then have c1: "carved_from (set_cell a r c (Digit d)) ?b1"
        using carved_from_fill_right[OF ab ea] by (intro carved_from_fill_left)
      have c2: "carved_from ?b1 sol" using bs d(1) by (rule carved_from_fill_left)
      have f: "forced sol ?b1" using IH[OF c1 c2] .
      have vd: "count_isValid b d r c"
        unfolding count_isValid_iff[OF rc9]
      proof (intro allI impI notI)
        fix r' c' assume h: "r' < 9" "c' < 9" "same_unit r c r' c'" "cell_at b r' c' = Some (Digit d)"
        then have "(r', c') \<noteq> (r, c)" using eb by auto
        then have "peer r c r' c'" using h(3) by (simp add: peer_def)
        moreover have "cell_at sol r' c' = Some (Digit d)"
          using carved_from_cell[OF bs, of r' c'] h(4) by simp
        ultimately show False using sound_gridD2[OF snd rc9 d(1) h(1,2)] by simp
      qed
      have iv: "\<not> count_isValid b num r c" if "1 \<le> num" "num \<le> 9" "num \<noteq> d" for num
      proof
        assume "count_isValid b num r c"
        then have "\<forall>r'<9. \<forall>c'<9. same_unit r c r' c' \<longrightarrow> cell_at b r' c' \<noteq> Some (Digit num)"
          unfolding count_isValid_iff[OF rc9] .
        then have "\<forall>r'<9. \<forall>c'<9. same_unit r c r' c' \<longrightarrow> cell_at a r' c' \<noteq> Some (Digit num)"
          using carved_from_cell[OF ab] by (metis cell.distinct(1) option.inject)
        then have "count_isValid a num r c" unfolding count_isValid_iff[OF rc9] .
        then show False using only[OF that(1,2)] that(3) by simp
      qed
      have "\<forall>num. 1 \<le> num \<and> num \<le> 9 \<longrightarrow> count_isValid b num r c = (num = d)"
        using vd iv by blast
      then show ?thesis unfolding forced_Some[OF fb] using d f by blast
    next
      case False
      then have "cell_at b r c = Some (Digit d)"
        using bs d(1) unfolding carved_from_def by metis
      then have "carved_from (set_cell a r c (Digit d)) b"
        using ab by (intro carved_from_fill_left)
      then show ?thesis using IH bs by blast
    qed
  qed
qed

subsection \<open>A run of the generator\<close>

text \<open>The cells \<open>order\<close> can be removed from \<open>p\<close> one after the other, each removal passing
  the test of the loop.\<close>

fun carvable :: "board \<Rightarrow> coords list \<Rightarrow> bool" where
  "carvable p [] = True"
| "carvable p ((r, c) # rest) =
     (cell_at p r c \<noteq> Some Empty
      \<and> snd (countSolutions (set_cell p r c Empty)) = 1
      \<and> carvable (set_cell p r c Empty) rest)"

definition remove_cells :: "board \<Rightarrow> coords list \<Rightarrow> board" where
  "remove_cells p order = fold (\<lambda>(r, c) b. set_cell b r c Empty) order p"

text \<open>From its \<open>i\<close>-th value on, the random source picks the cells \<open>order\<close>.\<close>

definition picks :: "(nat \<Rightarrow> real) \<Rightarrow> nat \<Rightarrow> coords list \<Rightarrow> bool" where
  "picks rnd i order \<longleftrightarrow>
     (\<forall>j<length order. nat \<lfloor>rnd (i + 2 * j) * 9\<rfloor> = fst (order ! j)
                        \<and> nat \<lfloor>rnd (i + 2 * j + 1) * 9\<rfloor> = snd (order ! j))"

lemma picks_Cons:
  assumes "picks rnd i ((r, c) # rest)"
  shows "nat \<lfloor>rnd i * 9\<rfloor> = r" "nat \<lfloor>rnd (Suc i) * 9\<rfloor> = c" "picks rnd (Suc (Suc i)) rest"
proof -
  have a: "nat \<lfloor>rnd (i + 2 * j) * 9\<rfloor> = fst (((r, c) # rest) ! j)
      \<and> nat \<lfloor>rnd (i + 2 * j + 1) * 9\<rfloor> = snd (((r, c) # rest) ! j)"
    if "j < Suc (length rest)" for j
    using assms that unfolding picks_def by simp
  from a[of 0] show "nat \<lfloor>rnd i * 9\<rfloor> = r" "nat \<lfloor>rnd (Suc i) * 9\<rfloor> = c" by simp_all
  show "picks rnd (Suc (Suc i)) rest"
    unfolding picks_def
  proof (intro allI impI)
    fix j assume "j < length rest"
    then have "Suc j < Suc (length rest)" by simp
    from a[OF this]
    show "nat \<lfloor>rnd (Suc (Suc i) + 2 * j) * 9\<rfloor> = fst (rest ! j)
      \<and> nat \<lfloor>rnd (Suc (Suc i) + 2 * j + 1) * 9\<rfloor> = snd (rest ! j)"
      by simp
  qed
qed

lemma carve_follows:
  "carvable p order \<Longrightarrow> picks rnd i order \<Longrightarrow>
   carve rnd i p (int (length order)) = Some (remove_cells p order)"
proof (induction order arbitrary: i p)
  case Nil
  show ?case by (subst carve.simps) (simp add: remove_cells_def)
next
  case (Cons x rest)
  obtain r c where x: "x = (r, c)" by (cases x)
  note pk = picks_Cons[OF Cons.prems(2)[unfolded x]]
  have cv: "cell_at p r c \<noteq> Some Empty" "snd (countSolutions (set_cell p r c Empty)) = 1"
    "carvable (set_cell p r c Empty) rest"
    using Cons.prems(1) by (simp_all add: x)
  have "carve rnd (Suc (Suc i)) (set_cell p r c Empty) (int (length rest))
          = Some (remove_cells (set_cell p r c Empty) rest)"
    using cv(3) pk(3) by (rule Cons.IH)
  then show ?case
    by (subst carve.simps) (simp add: x pk(1,2) cv(1,2) Let_def cloneBoard_id remove_cells_def)
qed

lemma remove_cells_carved: "carved_from (remove_cells p order) p"
proof (induction order arbitrary: p)
  case Nil
  show ?case by (simp add: remove_cells_def carved_from_refl)
next
  case (Cons x rest)
  obtain r c where x: "x = (r, c)" by (cases x)
  have "carved_from (remove_cells (set_cell p r c Empty) rest) (set_cell p r c Empty)"
    by (rule Cons.IH)
  then have "carved_from (remove_cells (set_cell p r c Empty) rest) p"
    using carved_from_set_Empty by (rule carved_from_trans)
  then show ?case by (simp add: x remove_cells_def)
qed

lemma carvable_from_forced:
  assumes "sound_grid sol"
  shows "carved_from p sol \<Longrightarrow> distinct order \<Longrightarrow>
         (\<forall>x\<in>set order. cell_at p (fst x) (snd x) \<noteq> Some Empty) \<Longrightarrow>
         forced sol (remove_cells p order) \<Longrightarrow> carvable p order"
proof (induction order arbitrary: p)
  case Nil
  show ?case by simp
next
  case (Cons x rest)
  obtain r c where x: "x = (r, c)" by (cases x)
  let ?p1 = "set_cell p r c Empty"
  have fin: "remove_cells p (x # rest) = remove_cells ?p1 rest" by (simp add: x remove_cells_def)
  have c1: "carved_from ?p1 sol"
    using carved_from_set_Empty Cons.prems(1) by (rule carved_from_trans)
  have f1: "forced sol ?p1"
    using Cons.prems(4) assms remove_cells_carved c1 unfolding fin by (rule forced_mono)
  have cnt: "snd (countSolutions ?p1) = 1"
    using forced_count[OF f1] by (simp add: countSolutions_def)
  have ne: "cell_at p r c \<noteq> Some Empty" using Cons.prems(3) by (simp add: x)
  have rest_ne: "\<forall>y\<in>set rest. cell_at ?p1 (fst y) (snd y) \<noteq> Some Empty"
  proof
    fix y assume y: "y \<in> set rest"
    then have "y \<noteq> (r, c)" using Cons.prems(2) by (auto simp: x)
    then have "cell_at ?p1 (fst y) (snd y) = cell_at p (fst y) (snd y)"
      by (cases y) (auto simp: cell_at_set_cell_iff)
    then show "cell_at ?p1 (fst y) (snd y) \<noteq> Some Empty" using Cons.prems(3) y by simp
  qed
  have "carvable ?p1 rest"
    using c1 _ rest_ne Cons.prems(4)[unfolded fin]
    by (rule Cons.IH) (use Cons.prems(2) in simp)
  then show ?case using ne cnt by (simp add: x)
qed

text \<open>
  The run: the first value of \<^verbatim>\<open>Math.random()\<close> is 0 (46 cells are to be removed), and the
  following values pick the cells of \<open>example_order\<close> one after the other, each pick
  being a value \<open>k / 9\<close> with \<open>k\<close> the row or column picked.
\<close>

definition example_order :: "coords list" where
  "example_order =
     [(8, 8), (8, 7), (8, 6), (8, 5), (8, 4), (8, 3), (8, 2), (8, 1), (8, 0), (7, 8), (7, 7), (7, 6), (7, 4), (7, 2), (7, 1), (6, 8), (6, 7), (6, 6), (6, 5), (6, 3), (6, 0), (5, 8), (5, 6), (5, 5), (5, 4), (5, 2), (5, 1), (4, 8), (4, 6), (4, 4), (4, 2), (3, 8), (3, 7), (3, 5), (3, 0), (2, 8), (2, 7), (2, 5), (2, 2), (2, 0), (1, 8), (1, 5), (1, 3), (1, 0), (0, 8), (0, 6)]"

definition example_random :: "nat \<Rightarrow> real" where
  "example_random i =
     (if i = 0 then 0
      else let j = (i - 1) div 2
           in if j < length example_order
              then real ((if odd i then fst else snd) (example_order ! j)) / 9
              else 0)"

lemma example_order_facts:
  "length example_order = 46" "distinct example_order"
  "\<forall>x\<in>set example_order. fst x < 9 \<and> snd x < 9"
  by (simp_all add: example_order_def)

lemma example_random_range: "0 \<le> example_random i \<and> example_random i < 1"
proof (cases "i \<noteq> 0 \<and> (i - 1) div 2 < length example_order")
  case False
  then show ?thesis by (auto simp: example_random_def Let_def)
next
  case True
  then have "example_order ! ((i - 1) div 2) \<in> set example_order" by simp
  then have "fst (example_order ! ((i - 1) div 2)) < 9 \<and> snd (example_order ! ((i - 1) div 2)) < 9"
    using example_order_facts(3) by blast
  then show ?thesis using True by (auto simp: example_random_def Let_def)
qed

lemma example_picks: "picks example_random 1 example_order"
  unfolding picks_def
proof (intro allI impI)
  fix j assume j: "j < length example_order"
  have a: "example_random (1 + 2 * j) = real (fst (example_order ! j)) / 9"
    using j by (simp add: example_random_def Let_def)
  have "(1 + 2 * j + 1 - 1) div 2 = j" by simp
  then have b: "example_random (1 + 2 * j + 1) = real (snd (example_order ! j)) / 9"
    using j unfolding example_random_def Let_def by simp
  show "nat \<lfloor>example_random (1 + 2 * j) * 9\<rfloor> = fst (example_order ! j)
        \<and> nat \<lfloor>example_random (1 + 2 * j + 1) * 9\<rfloor> = snd (example_order ! j)"
    unfolding a b by simp
qed

lemma example_puzzle_carved: "remove_cells example_solution example_order = example_puzzle"
  by code_simp

lemma forced_example: "forced example_solution example_puzzle"
  by code_simp

lemma example_solution_sound: "sound_grid example_solution \<and> findEmpty example_solution = None"
proof -
  have "\<forall>j. set (example_shuffle j) \<subseteq> {1..9}" using example_shuffle_perm by simp
  moreover have "fst (solve example_shuffle emptyBoard 0) = Some example_solution"
    by (simp add: solve_example)
  ultimately show ?thesis using solve_sound(1)[OF sound_emptyBoard] by blast
qed

lemma generate_example:
  "generateNewPuzzle example_shuffle example_random = Some (Inr (example_puzzle, example_solution))"
proof -
  have ne: "\<forall>x\<in>set example_order. cell_at example_solution (fst x) (snd x) \<noteq> Some Empty"
    using example_order_facts(3) example_solution_sound by (auto simp: findEmpty_None)
  have "carvable example_solution example_order"
    by (rule carvable_from_forced[OF example_solution_sound[THEN conjunct1] carved_from_refl
          example_order_facts(2) ne])
      (simp add: example_puzzle_carved forced_example)
  then have "carve example_random 1 example_solution (int (length example_order)) = Some example_puzzle"
    using carve_follows[OF _ example_picks] by (simp add: example_puzzle_carved)
  moreover have "\<lfloor>example_random 0 * (50 - 40 + 1)\<rfloor> + 46 = int (length example_order)"
    by (simp add: example_random_def example_order_facts(1))
  ultimately show ?thesis
    unfolding generateNewPuzzle_def Let_def cloneBoard_id by (simp add: solve_example)
qed

theorem generate_puzzle_unique_witness:
  "generateNewPuzzle example_shuffle example_random = Some (Inr (example_puzzle, example_solution))
   \<and> (\<forall>i. 0 \<le> example_random i \<and> example_random i < 1)
   \<and> (\<forall>j. distinct (example_shuffle j) \<and> set (example_shuffle j) = {1..9})
   \<and> cell_at example_puzzle 0 0 = cell_at example_solution 0 0
   \<and> snd (countSolutions example_puzzle) = 1"
proof -
  have r: "\<forall>i. 0 \<le> example_random i \<and> example_random i < 1"
    using example_random_range by blast
  have "cell_at example_puzzle 0 0 \<noteq> Some Empty" by (simp add: example_puzzle_cells)
  then show ?thesis
    using generate_puzzle_unique[OF generate_example r] generate_example r example_shuffle_perm
    by simp
qed

end
